theory Spec2Isabelle
  imports Complex_Main
begin

section \<open>Strings\<close>

text \<open>
  A Python \<open>str\<close> is a sequence of Unicode code points and \<open>len\<close> counts code points,
  so a string is modelled as the list of its code points. \<open>str\<close> turns an ASCII literal
  into that representation.
\<close>

type_synonym pystr = "nat list"

definition str :: "string \<Rightarrow> pystr" where
  "str s = map of_char s"

section \<open>Bearer-token check (app/auth.py)\<close>

text \<open>
  \<open>HTTPException(status_code, detail)\<close>. The configured token
  \<open>settings.API_AUTH_TOKEN\<close> is optional: \<open>None\<close> when it is not set.
\<close>

datatype http_error = HTTPException nat pystr

definition HTTP_401_UNAUTHORIZED :: nat where
  "HTTP_401_UNAUTHORIZED = 401"

text \<open>Python truthiness of an optional string: \<open>None\<close> and the empty string are false.\<close>

definition truthy :: "pystr option \<Rightarrow> bool" where
  "truthy v = (case v of None \<Rightarrow> False | Some s \<Rightarrow> s \<noteq> [])"

definition valid_tokens :: "pystr option \<Rightarrow> pystr list" where
  "valid_tokens api_auth_token =
     (if truthy api_auth_token then [] @ [the api_auth_token] else [])"

definition validate_token :: "pystr option \<Rightarrow> pystr \<Rightarrow> http_error + unit" where
  "validate_token api_auth_token token =
     (if token \<notin> set (valid_tokens api_auth_token)
      then Inl (HTTPException HTTP_401_UNAUTHORIZED (str ''Unauthorized: Invalid or missing token''))
      else Inr ())"

definition startswith :: "pystr \<Rightarrow> pystr \<Rightarrow> bool" where
  "startswith s p = (take (length p) s = p)"

text \<open>\<open>s.split(sep, 1)\<close> for a one-character separator: cut at the first occurrence.\<close>

definition split_once :: "nat \<Rightarrow> pystr \<Rightarrow> pystr list" where
  "split_once sep s =
     (case dropWhile (\<lambda>c. c \<noteq> sep) s of
        [] \<Rightarrow> [s]
      | _ # rest \<Rightarrow> [takeWhile (\<lambda>c. c \<noteq> sep) s, rest])"

text \<open>
  The argument \<open>auth_header\<close> is the value of \<open>request.headers.get("Authorization")\<close>.
  Indexing the split result at 1 raises \<open>IndexError\<close> when there is no second part; the
  \<open>startswith\<close> test makes that branch unreachable, and it is kept as \<open>None\<close>.
\<close>

definition verify_header_auth :: "pystr option \<Rightarrow> pystr option \<Rightarrow> (http_error + pystr) option" where
  "verify_header_auth api_auth_token auth_header =
     (if \<not> truthy auth_header \<or> \<not> startswith (the auth_header) (str ''Bearer '')
      then Some (Inl (HTTPException HTTP_401_UNAUTHORIZED (str ''Unauthorized: Missing Bearer token'')))
      else (case split_once 32 (the auth_header) of
              _ # token # _ \<Rightarrow>
                (case validate_token api_auth_token token of
                   Inl e \<Rightarrow> Some (Inl e)
                 | Inr _ \<Rightarrow> Some (Inr token))
            | _ \<Rightarrow> None))"

definition is_401 :: "(http_error + 'a) \<Rightarrow> bool" where
  "is_401 r = (case r of Inl (HTTPException code _) \<Rightarrow> code = 401 | Inr _ \<Rightarrow> False)"

section \<open>Fallback text (app/utils.py)\<close>

text \<open>
  \<open>FALLBACK_TEXT\<close>, code point by code point as the source file holds it: the three
  lines end in a line feed (10), the apostrophe is 39, and the non-ASCII code points are the
  ones stored in the file.
\<close>

definition FALLBACK_TEXT :: pystr where
  "FALLBACK_TEXT =
     str ''<!--FALLBACK-->'' @ [240, 376, 376] @
     str '' Oops! Just a heads-up: **SORRY**'' @ [10] @
     str ''I'' @ [39] @
     str ''m trained specifically in **aquaculture, agriculture, fish, and poultry** topics.'' @ [10] @
     str ''I was developed by **Aquanex Systems**, so that'' @ [39] @
     str ''s my specialty!'' @ [10] @
     str ''Please ask me something in those areas '' @ [226, 8364, 8221] @
     str '' I'' @ [39] @
     str ''d love to help! '' @ [240, 376, 8482]"

text \<open>
  \<open>str.split()\<close> without arguments: the words between runs of whitespace, no empty
  word. \<open>isspace\<close> lists the code points Python treats as whitespace.
\<close>

definition isspace :: "nat \<Rightarrow> bool" where
  "isspace c = ((9 \<le> c \<and> c \<le> 13) \<or> (28 \<le> c \<and> c \<le> 32) \<or> c = 133 \<or> c = 160 \<or> c = 5760
                \<or> (8192 \<le> c \<and> c \<le> 8202) \<or> c = 8232 \<or> c = 8233 \<or> c = 8239 \<or> c = 8287
                \<or> c = 12288)"

fun split_loop :: "pystr \<Rightarrow> pystr \<Rightarrow> pystr list" where
  "split_loop w [] = (if w = [] then [] else [w])"
| "split_loop w (c # cs) =
     (if isspace c then (if w = [] then split_loop [] cs else w # split_loop [] cs)
      else split_loop (w @ [c]) cs)"

definition py_split :: "pystr \<Rightarrow> pystr list" where
  "py_split s = split_loop [] s"

section \<open>Message adapter (app/llm_service.py)\<close>

text \<open>
  Exceptions that reach the streaming code. \<open>CancelledError\<close> is the only one that is
  not an \<open>Exception\<close> (it derives from \<open>BaseException\<close>).
\<close>

datatype exn =
    ValueError pystr
  | KeyError pystr
  | AuthenticationError
  | RateLimitError
  | TimeoutError
  | PermissionError pystr
  | CancelledError
  | OtherException pystr

text \<open>
  \<open>str.lower()\<close>. On a string of ASCII code points it maps the letters A to Z to
  a to z and keeps the rest. On any other string it follows the Unicode case mapping of
  the interpreter, which is not part of this repository: that mapping is the parameter
  \<open>unicode_lower\<close>, and everything below holds whatever it is.
\<close>

definition is_ascii :: "pystr \<Rightarrow> bool" where
  "is_ascii s = list_all (\<lambda>c. c < 128) s"

definition lower :: "(pystr \<Rightarrow> pystr) \<Rightarrow> pystr \<Rightarrow> pystr" where
  "lower unicode_lower s =
     (if is_ascii s then map (\<lambda>c. if 65 \<le> c \<and> c \<le> 90 then c + 32 else c) s
      else unicode_lower s)"

datatype lc_message = SystemMessage pystr | HumanMessage pystr | AIMessage pystr

text \<open>A message is a dict; \<open>m["k"]\<close> raises \<open>KeyError\<close> when the key is missing.\<close>

type_synonym message = "pystr \<rightharpoonup> pystr"

definition getitem :: "message \<Rightarrow> pystr \<Rightarrow> exn + pystr" where
  "getitem m k = (case m k of None \<Rightarrow> Inl (KeyError k) | Some v \<Rightarrow> Inr v)"

fun lc_loop :: "(pystr \<Rightarrow> pystr) \<Rightarrow> lc_message list \<Rightarrow> message list \<Rightarrow> exn + lc_message list" where
  "lc_loop ul lc_msgs [] = Inr lc_msgs"
| "lc_loop ul lc_msgs (m # ms) =
     (case getitem m (str ''role'') of
        Inl e \<Rightarrow> Inl e
      | Inr r \<Rightarrow>
          (let role = lower ul r in
           if role = str ''system'' then
             (case getitem m (str ''content'') of
                Inl e \<Rightarrow> Inl e | Inr c \<Rightarrow> lc_loop ul (lc_msgs @ [SystemMessage c]) ms)
           else if role = str ''user'' then
             (case getitem m (str ''content'') of
                Inl e \<Rightarrow> Inl e | Inr c \<Rightarrow> lc_loop ul (lc_msgs @ [HumanMessage c]) ms)
           else if role = str ''assistant'' then
             (case getitem m (str ''content'') of
                Inl e \<Rightarrow> Inl e | Inr c \<Rightarrow> lc_loop ul (lc_msgs @ [AIMessage c]) ms)
           else Inl (ValueError (str ''Unsupported role: '' @ role))))"

definition lc_messages :: "(pystr \<Rightarrow> pystr) \<Rightarrow> message list \<Rightarrow> exn + lc_message list" where
  "lc_messages ul messages = lc_loop ul [] messages"

section \<open>Local fallback streamer\<close>

text \<open>
  \<open>stream_fallback\<close> yields each word of the fallback text with a space appended and then
  sleeps. The list \<open>sleeps\<close> says, sleep by sleep, whether the sleep is interrupted by a
  \<open>CancelledError\<close>, which ends the loop; past its end no sleep is interrupted.
\<close>

fun fallback_loop :: "pystr list \<Rightarrow> bool list \<Rightarrow> pystr list" where
  "fallback_loop [] sleeps = []"
| "fallback_loop (word # ws) sleeps =
     (word @ str '' '') #
       (case sleeps of
          [] \<Rightarrow> fallback_loop ws []
        | cancelled # sleeps' \<Rightarrow> if cancelled then [] else fallback_loop ws sleeps')"

definition stream_fallback :: "bool list \<Rightarrow> pystr list" where
  "stream_fallback sleeps = fallback_loop (py_split FALLBACK_TEXT) sleeps"

section \<open>Streaming from the provider\<close>

text \<open>
  The two settings the consumer loop reads: \<open>_TOKEN_BUFFER_SIZE\<close> (an \<open>int\<close>, default
  48) and \<open>_TOKEN_FLUSH_INTERVAL\<close> (seconds, default 0.05). Clock readings and the
  interval are rational numbers.
\<close>

record config =
  TOKEN_BUFFER_SIZE :: int
  TOKEN_FLUSH_INTERVAL :: rat

definition default_config :: config where
  "default_config = \<lparr> TOKEN_BUFFER_SIZE = 48, TOKEN_FLUSH_INTERVAL = 1 / 20 \<rparr>"

text \<open>
  The state that \<open>stream_openai\<close> shares with its callback handler and with the background
  task \<open>run_call\<close>: the token queue, the \<open>done\<close> event, \<open>error_marker\<close>, the coalescing
  buffer and the time of the last flush. \<open>call_cancelled\<close> is what
  \<open>call_task.cancelled()\<close> answers.
\<close>

record st =
  queue :: "pystr list"
  done_event :: bool
  error_marker :: "exn option"
  token_buffer :: "pystr list"
  last_flush :: rat
  call_cancelled :: bool

definition RATE_LIMIT_MARKER :: pystr where
  "RATE_LIMIT_MARKER =
     [9888, 65039] @ str '' OpenAI quota exceeded. Switching to fallback...'' @ [10]"

definition TIMEOUT_MARKER :: pystr where
  "TIMEOUT_MARKER = [9888, 65039] @ str '' LLM request timed out. Using fallback...'' @ [10]"

definition UNEXPECTED_MARKER :: pystr where
  "UNEXPECTED_MARKER =
     [9888, 65039] @ str '' Unexpected error with LLM backend. Using fallback...'' @ [10]"

text \<open>
  What the background task does to the shared state, seen from the consumer loop:
  the handler's three callbacks, and the \<open>except\<close> clauses of \<open>run_call\<close> when the
  awaited invocation raises. The clauses are tried in the source's order; a
  \<open>CancelledError\<close> matches none of them and leaves the task cancelled. The queue is
  unbounded, so each \<open>put\<close> succeeds at once and every clause runs without suspending.
\<close>

datatype pevent =
    OnLlmNewToken pystr
  | OnLlmEnd
  | OnLlmError exn
  | InvokeRaised exn

fun run_call_except :: "exn \<Rightarrow> st \<Rightarrow> st" where
  "run_call_except AuthenticationError s =
     s\<lparr> error_marker := Some (PermissionError (str ''Invalid or missing OpenAI API key'')),
        done_event := True \<rparr>"
| "run_call_except RateLimitError s =
     s\<lparr> error_marker := Some RateLimitError,
        queue := queue s @ [RATE_LIMIT_MARKER],
        done_event := True \<rparr>"
| "run_call_except TimeoutError s =
     s\<lparr> error_marker := Some TimeoutError,
        queue := queue s @ [TIMEOUT_MARKER],
        done_event := True \<rparr>"
| "run_call_except CancelledError s = s\<lparr> call_cancelled := True \<rparr>"
| "run_call_except e s =
     s\<lparr> error_marker := Some e,
        queue := queue s @ [UNEXPECTED_MARKER],
        done_event := True \<rparr>"

fun run_call_event :: "pevent \<Rightarrow> st \<Rightarrow> st" where
  "run_call_event (OnLlmNewToken token) s = s\<lparr> queue := queue s @ [token] \<rparr>"
| "run_call_event OnLlmEnd s = s\<lparr> done_event := True \<rparr>"
| "run_call_event (OnLlmError error) s = s\<lparr> error_marker := Some error, done_event := True \<rparr>"
| "run_call_event (InvokeRaised e) s = run_call_except e s"

text \<open>
  One iteration of the \<open>while True\<close> loop. \<open>queue.get()\<close> returns the oldest queued
  token; with the queue empty for the whole poll timeout the \<open>TimeoutError\<close> branch runs.
  \<open>now\<close> and \<open>now'\<close> are the first and second clock reading of the iteration. The
  result is the chunks yielded (none or one), the new state, and how the iteration ends.
\<close>

datatype ctl = Continue | Break | RaiseCancelled

definition buffered :: "pystr list \<Rightarrow> int" where
  "buffered buf = int (sum_list (map length buf))"

definition loop_body :: "config \<Rightarrow> rat \<Rightarrow> rat \<Rightarrow> st \<Rightarrow> pystr list \<times> st \<times> ctl" where
  "loop_body cfg now now' s =
     (case queue s of
        token # q \<Rightarrow>
          (let buf = token_buffer s @ [token];
               s1 = s\<lparr> queue := q, token_buffer := buf \<rparr>
           in if buffered buf \<ge> TOKEN_BUFFER_SIZE cfg
              then ([concat buf], s1\<lparr> token_buffer := [], last_flush := now \<rparr>,
                    if call_cancelled s then RaiseCancelled else Continue)
              else ([], s1, if call_cancelled s then RaiseCancelled else Continue))
      | [] \<Rightarrow>
          (if token_buffer s \<noteq> [] \<and> now - last_flush s \<ge> TOKEN_FLUSH_INTERVAL cfg
           then ([concat (token_buffer s)], s\<lparr> token_buffer := [], last_flush := now' \<rparr>,
                 if done_event s then Break else Continue)
           else ([], s, if done_event s then Break else Continue)))"

text \<open>
  A schedule interleaves what the background task does (\<open>Task\<close>) with the completions of
  the consumer's polls (\<open>Poll now now'\<close>). An iteration is one step of the schedule: what
  the background task does while the generator is suspended at a \<open>yield\<close> is placed before
  the next poll. The loop ends by \<open>break\<close>, by raising \<open>CancelledError\<close>, or is still
  polling when the schedule ends (\<open>Starved\<close>).
\<close>

datatype event = Task pevent | Poll rat rat

datatype exit = Broke | Cancelled | Starved

fun stream_loop :: "config \<Rightarrow> event list \<Rightarrow> st \<Rightarrow> pystr list \<times> exit \<times> st" where
  "stream_loop cfg [] s = ([], Starved, s)"
| "stream_loop cfg (Task p # es) s = stream_loop cfg es (run_call_event p s)"
| "stream_loop cfg (Poll now now' # es) s =
     (case loop_body cfg now now' s of
        (out, s', Continue) \<Rightarrow>
          (case stream_loop cfg es s' of (chunks, x, sf) \<Rightarrow> (out @ chunks, x, sf))
      | (out, s', Break) \<Rightarrow> (out, Broke, s')
      | (out, s', RaiseCancelled) \<Rightarrow> (out, Cancelled, s'))"

text \<open>
  After the loop: the leftover flush, then the error paths. A \<open>PermissionError\<close> in
  \<open>error_marker\<close> is raised again; any other error replays the fallback text.
\<close>

datatype ending = Returned | Raised exn | Pending

definition is_PermissionError :: "exn \<Rightarrow> bool" where
  "is_PermissionError e = (case e of PermissionError _ \<Rightarrow> True | _ \<Rightarrow> False)"

definition after_loop :: "st \<Rightarrow> bool list \<Rightarrow> pystr list \<times> ending" where
  "after_loop s sleeps =
     (let leftover = (if token_buffer s \<noteq> [] then [concat (token_buffer s)] else [])
      in case error_marker s of
           Some e \<Rightarrow>
             if is_PermissionError e then (leftover, Raised e)
             else (leftover @ stream_fallback sleeps, Returned)
         | None \<Rightarrow> (leftover, Returned))"

text \<open>
  \<open>stream_openai\<close>: the chunks yielded and how the generator ends: it has returned,
  it has raised, or the schedule ended while the loop was still polling (\<open>Pending\<close>).
  \<open>t0\<close> is the clock reading taken before the loop. The background task evaluates
  \<open>_lc_messages(messages)\<close> inside its \<open>try\<close>, before the provider is invoked: when
  the adapter raises, the provider never runs, and the only thing the background task does
  is handle that exception, as soon as the consumer first suspends; \<open>run_call\<close> gives
  what the background task does under a schedule of the provider. The model name only
  selects the provider's model and is left out. The cleanup in \<open>finally\<close> awaits the
  background task and yields nothing; it is taken to find the task finished, as it is once
  \<open>run_call\<close> has handled an exception or the invocation has returned.
\<close>

definition is_Poll :: "event \<Rightarrow> bool" where
  "is_Poll e = (case e of Poll _ _ \<Rightarrow> True | Task _ \<Rightarrow> False)"

definition run_call :: "(pystr \<Rightarrow> pystr) \<Rightarrow> message list \<Rightarrow> event list \<Rightarrow> event list" where
  "run_call ul messages sched =
     (case lc_messages ul messages of
        Inl e \<Rightarrow> Task (InvokeRaised e) # filter is_Poll sched
      | Inr lc \<Rightarrow> sched)"

definition initial :: "rat \<Rightarrow> st" where
  "initial t0 = \<lparr> queue = [], done_event = False, error_marker = None, token_buffer = [],
                  last_flush = t0, call_cancelled = False \<rparr>"

definition stream_openai ::
  "(pystr \<Rightarrow> pystr) \<Rightarrow> config \<Rightarrow> rat \<Rightarrow> message list \<Rightarrow> event list \<Rightarrow> bool list \<Rightarrow> pystr list \<times> ending" where
  "stream_openai ul cfg t0 messages sched sleeps =
     (case stream_loop cfg (run_call ul messages sched) (initial t0) of
        (chunks, Starved, s) \<Rightarrow> (chunks, Pending)
      | (chunks, Cancelled, s) \<Rightarrow> (chunks, Raised CancelledError)
      | (chunks, Broke, s) \<Rightarrow>
          (case after_loop s sleeps of (rest, e) \<Rightarrow> (chunks @ rest, e)))"

text \<open>
  The provider's part of a schedule, and the attempts of the specification: the provider
  emits tokens and then signals one outcome, either normal completion (\<open>on_llm_end\<close>) or
  an exception raised by the invocation. Which other callbacks the client library invokes
  is not part of this repository.
\<close>

fun producer_of :: "event list \<Rightarrow> pevent list" where
  "producer_of [] = []"
| "producer_of (Task p # es) = p # producer_of es"
| "producer_of (Poll _ _ # es) = producer_of es"

definition attempt :: "pystr list \<Rightarrow> pevent \<Rightarrow> pevent list" where
  "attempt toks fin = map OnLlmNewToken toks @ [fin]"

text \<open>
  The client library may report a failure to the handler's \<open>on_llm_error\<close> before the
  exception leaves the invocation: a failing attempt is the tokens, possibly that
  callback, and the exception. \<open>handled_at_once\<close> says that in a schedule every such
  callback is directly followed by \<open>run_call\<close> handling the exception, so that no poll
  of the consumer completes in between. \<open>without_callback\<close> removes the callbacks.
\<close>

definition failing_attempt :: "pystr list \<Rightarrow> exn option \<Rightarrow> exn \<Rightarrow> pevent list" where
  "failing_attempt toks callback x =
     map OnLlmNewToken toks
       @ (case callback of None \<Rightarrow> [] | Some e \<Rightarrow> [OnLlmError e])
       @ [InvokeRaised x]"

definition is_error_callback :: "pevent \<Rightarrow> bool" where
  "is_error_callback p = (case p of OnLlmError e \<Rightarrow> True | _ \<Rightarrow> False)"

fun handled_at_once :: "event list \<Rightarrow> bool" where
  "handled_at_once [] = True"
| "handled_at_once (Poll now now' # es) = handled_at_once es"
| "handled_at_once (Task p # es) =
     (if is_error_callback p
      then (case es of
              Task (InvokeRaised x) # es' \<Rightarrow> x \<noteq> CancelledError \<and> handled_at_once es'
            | _ \<Rightarrow> False)
      else handled_at_once es)"

fun without_callback :: "event list \<Rightarrow> event list" where
  "without_callback [] = []"
| "without_callback (Poll now now' # es) = Poll now now' # without_callback es"
| "without_callback (Task p # es) =
     (if is_error_callback p then without_callback es else Task p # without_callback es)"

text \<open>
  What an event appends to the queue, the state after a script when nothing is consumed,
  and the events that set \<open>done\<close>.
\<close>

fun marker_for :: "exn \<Rightarrow> pystr list" where
  "marker_for AuthenticationError = []"
| "marker_for RateLimitError = [RATE_LIMIT_MARKER]"
| "marker_for TimeoutError = [TIMEOUT_MARKER]"
| "marker_for CancelledError = []"
| "marker_for e = [UNEXPECTED_MARKER]"

fun puts :: "pevent \<Rightarrow> pystr list" where
  "puts (OnLlmNewToken token) = [token]"
| "puts (InvokeRaised e) = marker_for e"
| "puts p = []"

fun run_script :: "pevent list \<Rightarrow> st \<Rightarrow> st" where
  "run_script [] s = s"
| "run_script (p # ps) s = run_script ps (run_call_event p s)"

fun settles :: "pevent \<Rightarrow> bool" where
  "settles (OnLlmNewToken token) = False"
| "settles (InvokeRaised e) = (e \<noteq> CancelledError)"
| "settles p = True"

text \<open>
  The invariant of a run against an attempt: the task is not cancelled, and \<open>done\<close> is
  set exactly when the provider has nothing left to do.
\<close>

definition attempt_inv :: "st \<Rightarrow> pevent list \<Rightarrow> bool" where
  "attempt_inv s ps = (\<not> call_cancelled s \<and>
               (if done_event s then ps = [] else (\<exists>toks fin. ps = attempt toks fin \<and> settles fin)))"

text \<open>Every token the provider emits is a non-empty string.\<close>

definition nonempty_tokens :: "pevent list \<Rightarrow> bool" where
  "nonempty_tokens ps = (\<forall>p \<in> set ps. \<forall>t. p = OnLlmNewToken t \<longrightarrow> t \<noteq> [])"

text \<open>Two messages used in the examples below.\<close>

definition user_message :: message where
  "user_message = [str ''role'' \<mapsto> str ''user'', str ''content'' \<mapsto> str ''How do I raise tilapia?'']"

definition moderator_message :: message where
  "moderator_message = [str ''role'' \<mapsto> str ''moderator'', str ''content'' \<mapsto> str ''hi'']"

section \<open>Properties of the bearer-token check\<close>

lemma split_once_bearer:
  assumes "startswith h (str ''Bearer '')"
  shows "split_once 32 h = [str ''Bearer'', drop 7 h]"
proof -
  have l: "length (str ''Bearer '') = 7"
    by (simp add: str_def)
  have t: "take 7 h = str ''Bearer ''"
    using assms unfolding startswith_def l .
  have "take 7 h @ drop 7 h = h" by simp
  then have h: "h = str ''Bearer '' @ drop 7 h" using t by simp
  have "split_once 32 (str ''Bearer '' @ r) = [str ''Bearer'', r]" for r
    by (simp add: split_once_def str_def)
  then show ?thesis using h by metis
qed

text \<open>
  C10. \<open>validate_token\<close> answers 401 exactly when the presented token is not the configured
  \<open>API_AUTH_TOKEN\<close>: with a configured non-empty token \<open>t\<close>, the 401 is raised if and
  only if the presented token differs from \<open>t\<close>; with the setting unset or empty the list
  of valid tokens is empty, every presented token is rejected, and \<open>verify_header_auth\<close>
  answers 401 for every Authorization header, present or not.
\<close>

theorem validate_token_fail_closed:
  "(truthy cfg \<longrightarrow> (is_401 (validate_token cfg tok) \<longleftrightarrow> tok \<noteq> the cfg)
                 \<and> (validate_token cfg tok = Inr () \<longleftrightarrow> tok = the cfg))
   \<and> (\<not> truthy cfg \<longrightarrow> valid_tokens cfg = [] \<and> is_401 (validate_token cfg tok)
        \<and> (\<exists>e. verify_header_auth cfg hdr = Some (Inl e) \<and> is_401 (Inl e :: http_error + pystr)))"
proof (intro conjI impI)
  assume "truthy cfg"
  then show "is_401 (validate_token cfg tok) \<longleftrightarrow> tok \<noteq> the cfg"
    by (simp add: validate_token_def valid_tokens_def is_401_def HTTP_401_UNAUTHORIZED_def)
next
  assume "truthy cfg"
  then show "validate_token cfg tok = Inr () \<longleftrightarrow> tok = the cfg"
    by (simp add: validate_token_def valid_tokens_def)
next
  assume "\<not> truthy cfg"
  then show "valid_tokens cfg = []" by (simp add: valid_tokens_def)
next
  assume "\<not> truthy cfg"
  then show "is_401 (validate_token cfg tok)"
    by (simp add: validate_token_def valid_tokens_def is_401_def HTTP_401_UNAUTHORIZED_def)
next
  assume n: "\<not> truthy cfg"
  have v: "\<And>t. validate_token cfg t =
      Inl (HTTPException HTTP_401_UNAUTHORIZED (str ''Unauthorized: Invalid or missing token''))"
    using n by (simp add: validate_token_def valid_tokens_def)
  show "\<exists>e. verify_header_auth cfg hdr = Some (Inl e) \<and> is_401 (Inl e :: http_error + pystr)"
  proof (cases "\<not> truthy hdr \<or> \<not> startswith (the hdr) (str ''Bearer '')")
    case True
    then show ?thesis
      by (auto simp: verify_header_auth_def is_401_def HTTP_401_UNAUTHORIZED_def)
  next
    case False
    then have "split_once 32 (the hdr) = [str ''Bearer'', drop 7 (the hdr)]"
      using split_once_bearer by blast
    with False show ?thesis
      by (simp add: verify_header_auth_def v is_401_def HTTP_401_UNAUTHORIZED_def)
  qed
qed

theorem validate_token_fail_closed_witness:
  "truthy (Some (str ''s3cret''))
   \<and> is_401 (validate_token (Some (str ''s3cret'')) (str ''guess''))
   \<and> validate_token (Some (str ''s3cret'')) (str ''s3cret'') = Inr ()
   \<and> \<not> truthy (Some [])
   \<and> is_401 (validate_token (Some []) [])
   \<and> verify_header_auth (Some []) (Some (str ''Bearer '')) =
       Some (Inl (HTTPException 401 (str ''Unauthorized: Invalid or missing token'')))"
  using validate_token_fail_closed [of "Some (str ''s3cret'')" "str ''guess''" None]
    validate_token_fail_closed [of "Some (str ''s3cret'')" "str ''s3cret''" None]
    validate_token_fail_closed [of "Some []" "[]" "Some (str ''Bearer '')"]
  by (simp add: truthy_def str_def verify_header_auth_def startswith_def split_once_def
      validate_token_def valid_tokens_def HTTP_401_UNAUTHORIZED_def)

section \<open>The consumer loop against a provider attempt\<close>

lemma run_call_except_fields:
  "token_buffer (run_call_except e s) = token_buffer s"
  "queue (run_call_except e s) = queue s @ marker_for e"
  "last_flush (run_call_except e s) = last_flush s"
  "call_cancelled (run_call_except e s) = (call_cancelled s \<or> e = CancelledError)"
  "done_event (run_call_except e s) = (done_event s \<or> e \<noteq> CancelledError)"
  by (cases e; simp)+

lemma run_call_event_fields:
  "token_buffer (run_call_event p s) = token_buffer s"
  "queue (run_call_event p s) = queue s @ puts p"
  "call_cancelled (run_call_event p s) = (call_cancelled s \<or> p = InvokeRaised CancelledError)"
  "done_event (run_call_event p s) = (done_event s \<or> settles p)"
  by (cases p; simp add: run_call_except_fields)+

text \<open>
  An \<open>on_llm_error\<close> callback directly before the exception reaches \<open>run_call\<close>
  changes nothing: the \<open>except\<close> clause overwrites the marker the callback has set.
\<close>

lemma on_llm_error_overwritten:
  assumes "x \<noteq> CancelledError"
  shows "run_call_event (InvokeRaised x) (run_call_event (OnLlmError e) s)
           = run_call_event (InvokeRaised x) s"
  using assms by (cases x) simp_all

lemma loop_body_cases:
  assumes "loop_body cfg now now' s = (out, s', c)"
  shows "error_marker s' = error_marker s \<and> done_event s' = done_event s
       \<and> call_cancelled s' = call_cancelled s
       \<and> (c = RaiseCancelled \<longrightarrow> call_cancelled s)
       \<and> (c = Break \<longrightarrow> done_event s \<and> queue s' = [])
       \<and> (c = Continue \<longrightarrow> queue s = [] \<longrightarrow> \<not> done_event s)
       \<and> (c = Continue \<longrightarrow> queue s \<noteq> [] \<longrightarrow> queue s' = tl (queue s))
       \<and> (out = [] \<and> token_buffer s' @ queue s' = token_buffer s @ queue s
          \<or> (\<exists>g. g \<noteq> [] \<and> out = [concat g] \<and> token_buffer s' = []
                 \<and> g @ queue s' = token_buffer s @ queue s))"
  using assms
  by (auto simp: loop_body_def Let_def split: list.splits if_splits)

lemma attempt_inv_step:
  assumes "attempt_inv s (p # ps)"
  shows "attempt_inv (run_call_event p s) ps"
proof -
  from assms have nd: "\<not> done_event s" and nc: "\<not> call_cancelled s"
    by (auto simp: attempt_inv_def split: if_splits)
  from assms nd obtain toks fin where a: "p # ps = attempt toks fin" and f: "settles fin"
    by (auto simp: attempt_inv_def)
  show ?thesis
  proof (cases toks)
    case Nil
    with a have "p = fin" "ps = []" by (simp_all add: attempt_def)
    with f nc show ?thesis
      by (cases fin) (auto simp: attempt_inv_def run_call_except_fields)
  next
    case (Cons t ts)
    with a have "p = OnLlmNewToken t" "ps = attempt ts fin" by (simp_all add: attempt_def)
    with f nc nd show ?thesis
      by (auto simp: attempt_inv_def run_call_event_fields)
  qed
qed

lemma attempt_inv_body:
  assumes "attempt_inv s ps" "loop_body cfg now now' s = (out, s', c)"
  shows "attempt_inv s' ps"
  using loop_body_cases[OF assms(2)] assms(1) by (simp add: attempt_inv_def)

lemma run_call_event_cong:
  assumes "error_marker s = error_marker s'" "done_event s = done_event s'"
  shows "error_marker (run_call_event p s) = error_marker (run_call_event p s')
       \<and> done_event (run_call_event p s) = done_event (run_call_event p s')"
proof (cases p)
  case (InvokeRaised e)
  with assms show ?thesis by (cases e) simp_all
qed (use assms in simp_all)

lemma run_script_cong:
  assumes "error_marker s = error_marker s'" "done_event s = done_event s'"
  shows "error_marker (run_script ps s) = error_marker (run_script ps s')
       \<and> done_event (run_script ps s) = done_event (run_script ps s')"
  using assms
proof (induction ps arbitrary: s s')
  case Nil
  then show ?case by simp
next
  case (Cons p ps)
  have "error_marker (run_call_event p s) = error_marker (run_call_event p s')"
    "done_event (run_call_event p s) = done_event (run_call_event p s')"
    using run_call_event_cong[OF Cons.prems, of p] by blast+
  from Cons.IH[OF this] show ?case by simp
qed

lemma loop_trace:
  assumes "attempt_inv s (producer_of es)" "stream_loop cfg es s = (cs, x, sf)"
  shows "x \<noteq> Cancelled \<and> \<not> call_cancelled sf
       \<and> error_marker sf = error_marker (run_script (producer_of es) s)
       \<and> done_event sf = done_event (run_script (producer_of es) s)
       \<and> (x = Broke \<longrightarrow> queue sf = [] \<and> done_event sf)
       \<and> (\<exists>gs. cs = map concat gs \<and> [] \<notin> set gs
             \<and> concat gs @ token_buffer sf @ queue sf
                 = token_buffer s @ queue s @ concat (map puts (producer_of es)))"
  using assms
proof (induction cfg es s arbitrary: cs x sf rule: stream_loop.induct)
  case (1 cfg s)
  then show ?case by (auto simp: attempt_inv_def)
next
  case (2 cfg p es s)
  from "2.prems"(1) have i: "attempt_inv (run_call_event p s) (producer_of es)"
    using attempt_inv_step by simp
  from "2.prems"(2) have r: "stream_loop cfg es (run_call_event p s) = (cs, x, sf)" by simp
  from "2.IH"[OF i r] show ?case
    by (simp only: producer_of.simps run_script.simps list.map concat.simps
        run_call_event_fields append_assoc) blast
next
  case (3 cfg now now' es s)
  obtain out s' c where b: "loop_body cfg now now' s = (out, s', c)"
    by (cases "loop_body cfg now now' s") auto
  note bc = loop_body_cases[OF b]
  from "3.prems"(1) have i: "attempt_inv s (producer_of es)" by simp
  have i': "attempt_inv s' (producer_of es)" using attempt_inv_body[OF i b] .
  from i have nc: "\<not> call_cancelled s" by (simp add: attempt_inv_def)
  show ?case
  proof (cases c)
    case Continue
    obtain cs' where r: "stream_loop cfg es s' = (cs', x, sf)" and cs: "cs = out @ cs'"
      using "3.prems"(2) b Continue by (auto split: prod.splits)
    note ih = "3.IH"[OF b[symmetric] refl Continue i' r]
    from ih obtain gs where gs: "cs' = map concat gs" "[] \<notin> set gs"
      "concat gs @ token_buffer sf @ queue sf
         = token_buffer s' @ queue s' @ concat (map puts (producer_of es))"
      by blast
    have m: "error_marker (run_script (producer_of es) s') = error_marker (run_script (producer_of es) s)
           \<and> done_event (run_script (producer_of es) s') = done_event (run_script (producer_of es) s)"
      using bc run_script_cong[of s' s "producer_of es"] by simp
    let ?P = "concat (map puts (producer_of es))"
    from bc have "out = [] \<and> token_buffer s' @ queue s' = token_buffer s @ queue s
          \<or> (\<exists>g. g \<noteq> [] \<and> out = [concat g] \<and> token_buffer s' = []
                 \<and> g @ queue s' = token_buffer s @ queue s)" by blast
    then have "\<exists>gs'. out @ cs' = map concat gs' \<and> [] \<notin> set gs'
        \<and> concat gs' @ token_buffer sf @ queue sf = token_buffer s @ queue s @ ?P"
    proof
      assume a: "out = [] \<and> token_buffer s' @ queue s' = token_buffer s @ queue s"
      have "concat gs @ token_buffer sf @ queue sf = (token_buffer s' @ queue s') @ ?P"
        using gs(3) by simp
      also have "\<dots> = token_buffer s @ queue s @ ?P" using a by simp
      finally show ?thesis using a gs(1,2) by auto
    next
      assume "\<exists>g. g \<noteq> [] \<and> out = [concat g] \<and> token_buffer s' = []
                 \<and> g @ queue s' = token_buffer s @ queue s"
      then obtain g where g: "g \<noteq> []" "out = [concat g]" "token_buffer s' = []"
        "g @ queue s' = token_buffer s @ queue s" by blast
      have "concat (g # gs) @ token_buffer sf @ queue sf
              = g @ (concat gs @ token_buffer sf @ queue sf)" by simp
      also have "\<dots> = (g @ queue s') @ ?P" using gs(3) g(3) by simp
      also have "\<dots> = token_buffer s @ queue s @ ?P" using g(4) by simp
      finally have "concat (g # gs) @ token_buffer sf @ queue sf = token_buffer s @ queue s @ ?P" .
      moreover have "out @ cs' = map concat (g # gs)" using g(2) gs(1) by simp
      moreover have "[] \<notin> set (g # gs)" using g(1) gs(2) by auto
      ultimately show ?thesis by blast
    qed
    moreover have "x \<noteq> Cancelled" "\<not> call_cancelled sf"
      "x = Broke \<longrightarrow> queue sf = [] \<and> done_event sf"
      "error_marker sf = error_marker (run_script (producer_of es) s')"
      "done_event sf = done_event (run_script (producer_of es) s')"
      using ih by blast+
    ultimately show ?thesis using m cs
      by (simp only: producer_of.simps) blast
  next
    case Break
    with "3.prems"(2) b have e: "cs = out" "x = Broke" "sf = s'" by auto
    from bc Break have d: "done_event s" "queue s' = []" by auto
    with i have p: "producer_of es = []" by (simp add: attempt_inv_def)
    from bc have "\<exists>gs'. out = map concat gs' \<and> [] \<notin> set gs'
        \<and> concat gs' @ token_buffer s' @ queue s' = token_buffer s @ queue s"
    proof (elim conjE disjE exE)
      assume "out = []" "token_buffer s' @ queue s' = token_buffer s @ queue s"
      then show ?thesis by (intro exI[of _ "[]"]) simp
    next
      fix g assume "g \<noteq> []" "out = [concat g]" "token_buffer s' = []"
        "g @ queue s' = token_buffer s @ queue s"
      then show ?thesis by (intro exI[of _ "[g]"]) simp
    qed
    then obtain gs' where "out = map concat gs'" "[] \<notin> set gs'"
        "concat gs' @ token_buffer s' @ queue s' = token_buffer s @ queue s" by blast
    then have "\<exists>gs. cs = map concat gs \<and> [] \<notin> set gs
             \<and> concat gs @ token_buffer sf @ queue sf
                 = token_buffer s @ queue s @ concat (map puts (producer_of (Poll now now' # es)))"
      using e p by auto
    moreover have "error_marker sf = error_marker (run_script (producer_of (Poll now now' # es)) s)"
      "done_event sf = done_event (run_script (producer_of (Poll now now' # es)) s)"
      "queue sf = []" "done_event sf" "\<not> call_cancelled sf"
      using e d p bc nc by simp_all
    ultimately show ?thesis using e by blast
  next
    case RaiseCancelled
    with bc nc show ?thesis by simp
  qed
qed

lemma producer_of_append: "producer_of (es1 @ es2) = producer_of es1 @ producer_of es2"
  by (induction es1 rule: producer_of.induct) simp_all

lemma producer_of_polls: "list_all is_Poll polls \<Longrightarrow> producer_of polls = []"
  by (induction polls rule: producer_of.induct) (simp_all add: is_Poll_def)

lemma filter_polls: "list_all is_Poll polls \<Longrightarrow> filter is_Poll polls = polls"
  by (induction polls) simp_all

lemma stream_loop_append:
  "stream_loop cfg es1 s = (cs1, x, s1) \<Longrightarrow>
   stream_loop cfg (es1 @ es2) s =
     (if x = Starved
      then (case stream_loop cfg es2 s1 of (cs2, y, sf) \<Rightarrow> (cs1 @ cs2, y, sf))
      else (cs1, x, s1))"
proof (induction cfg es1 s arbitrary: cs1 x s1 rule: stream_loop.induct)
  case (1 cfg s)
  then show ?case by (auto split: prod.splits)
next
  case (2 cfg p es s)
  then show ?case by simp
next
  case (3 cfg now now' es s)
  obtain out s' c where b: "loop_body cfg now now' s = (out, s', c)"
    by (cases "loop_body cfg now now' s") auto
  show ?case
  proof (cases c)
    case Continue
    obtain cs' where r: "stream_loop cfg es s' = (cs', x, s1)" and cs: "cs1 = out @ cs'"
      using "3.prems" b Continue by (auto split: prod.splits)
    from "3.IH"[OF b[symmetric] refl Continue r] b Continue cs show ?thesis
      by (auto split: prod.splits)
  next
    case Break
    with "3.prems" b show ?thesis by auto
  next
    case RaiseCancelled
    with "3.prems" b show ?thesis by auto
  qed
qed

lemma stream_loop_polls:
  assumes "list_all is_Poll polls" "done_event s" "\<not> call_cancelled s"
    "length (queue s) < length polls"
  shows "\<exists>cs sf. stream_loop cfg polls s = (cs, Broke, sf)"
  using assms
proof (induction polls arbitrary: s)
  case Nil
  then show ?case by simp
next
  case (Cons e polls)
  then obtain now now' where e: "e = Poll now now'"
    by (cases e) (simp_all add: is_Poll_def)
  obtain out s' c where b: "loop_body cfg now now' s = (out, s', c)"
    by (cases "loop_body cfg now now' s") auto
  note bc = loop_body_cases[OF b]
  show ?case
  proof (cases c)
    case Continue
    with bc Cons.prems have q: "queue s \<noteq> []" "queue s' = tl (queue s)" by auto
    then have "length (queue s') < length polls" using Cons.prems(4) by (cases "queue s") auto
    moreover have "done_event s'" "\<not> call_cancelled s'" using bc Cons.prems by simp_all
    moreover have "list_all is_Poll polls" using Cons.prems(1) by simp
    ultimately obtain cs sf where "stream_loop cfg polls s' = (cs, Broke, sf)"
      using Cons.IH by blast
    with b Continue e show ?thesis by simp
  next
    case Break
    with b e show ?thesis by simp
  next
    case RaiseCancelled
    with bc Cons.prems show ?thesis by simp
  qed
qed

lemma run_script_attempt:
  "token_buffer (run_script ps s) = token_buffer s"
  "queue (run_script ps s) = queue s @ concat (map puts ps)"
  by (induction ps arbitrary: s) (simp_all add: run_call_event_fields)

lemma run_script_tokens:
  "error_marker (run_script (map OnLlmNewToken toks) s) = error_marker s"
  "done_event (run_script (map OnLlmNewToken toks) s) = done_event s"
  by (induction toks arbitrary: s) simp_all

lemma run_script_append: "run_script (ps @ qs) s = run_script qs (run_script ps s)"
  by (induction ps arbitrary: s) simp_all

lemma puts_attempt: "concat (map puts (attempt toks fin)) = toks @ puts fin"
  by (induction toks) (simp_all add: attempt_def)

lemma attempt_marker:
  "error_marker (run_script (attempt toks fin) (initial t0)) = error_marker (run_call_event fin (initial t0))"
  "settles fin \<Longrightarrow> done_event (run_script (attempt toks fin) s)"
proof -
  let ?s = "run_script (map OnLlmNewToken toks) (initial t0)"
  have "error_marker ?s = error_marker (initial t0)" "done_event ?s = done_event (initial t0)"
    by (simp_all add: run_script_tokens)
  from run_call_event_cong[OF this, of fin]
  show "error_marker (run_script (attempt toks fin) (initial t0)) = error_marker (run_call_event fin (initial t0))"
    by (simp add: attempt_def run_script_append)
  show "settles fin \<Longrightarrow> done_event (run_script (attempt toks fin) s)"
    by (simp add: attempt_def run_script_append run_call_event_fields)
qed

lemma attempt_inv_initial: "settles fin \<Longrightarrow> attempt_inv (initial t0) (attempt toks fin)"
  by (auto simp: attempt_inv_def initial_def)

lemma stream_openai_trace:
  assumes p: "producer_of (run_call ul messages sched) = attempt toks fin" and f: "settles fin"
    and r: "stream_openai ul cfg t0 messages sched sleeps = (chunks, e)"
  shows "(e = Pending \<and> (\<exists>gs rest. chunks = map concat gs \<and> [] \<notin> set gs \<and> concat gs @ rest = toks @ puts fin))
       \<or> (\<exists>gs. [] \<notin> set gs \<and> concat gs = toks @ puts fin
              \<and> chunks = map concat gs @ fst (after_loop (run_call_event fin (initial t0)) sleeps)
              \<and> e = snd (after_loop (run_call_event fin (initial t0)) sleeps))"
proof -
  obtain cs x sf where l: "stream_loop cfg (run_call ul messages sched) (initial t0) = (cs, x, sf)"
    by (cases "stream_loop cfg (run_call ul messages sched) (initial t0)") auto
  have i: "attempt_inv (initial t0) (producer_of (run_call ul messages sched))"
    using p f attempt_inv_initial by simp
  note t = loop_trace[OF i l, unfolded p puts_attempt attempt_marker(1)]
  from t obtain gs where gs: "cs = map concat gs" "[] \<notin> set gs"
    "concat gs @ token_buffer sf @ queue sf = toks @ puts fin"
    by (auto simp: initial_def)
  from t have xc: "x \<noteq> Cancelled" by blast
  show ?thesis
  proof (cases x)
    case Starved
    with r l have "chunks = cs" "e = Pending" by (simp_all add: stream_openai_def)
    with gs show ?thesis by blast
  next
    case Cancelled
    with xc show ?thesis by simp
  next
    case Broke
    with t have q: "queue sf = []"
      and m: "error_marker sf = error_marker (run_call_event fin (initial t0))" by blast+
    let ?a = "after_loop (run_call_event fin (initial t0)) sleeps"
    let ?left = "if token_buffer sf \<noteq> [] then [token_buffer sf] else []"
    have tb: "token_buffer (run_call_event fin (initial t0)) = []"
      by (simp add: run_call_event_fields initial_def)
    have al: "after_loop sf sleeps = (map concat ?left @ fst ?a, snd ?a)"
      using m tb by (auto simp: after_loop_def Let_def split: option.splits)
    from r l Broke al have c: "chunks = map concat (gs @ ?left) @ fst ?a" "e = snd ?a"
      by (simp_all add: stream_openai_def gs(1))
    have "[] \<notin> set (gs @ ?left)" using gs(2) by auto
    moreover have "concat (gs @ ?left) = toks @ puts fin" using gs(3) q by auto
    ultimately show ?thesis using c by blast
  qed
qed

lemma stream_openai_progress:
  assumes p: "producer_of (run_call ul messages sched) = attempt toks fin" and f: "settles fin"
    and polls: "list_all is_Poll polls" "length toks + 2 \<le> length polls"
  shows "snd (stream_openai ul cfg t0 messages (sched @ polls) sleeps) \<noteq> Pending"
proof -
  have rc: "run_call ul messages (sched @ polls) = run_call ul messages sched @ polls"
    using polls(1) by (simp add: run_call_def filter_polls split: sum.splits)
  obtain cs x sf where l: "stream_loop cfg (run_call ul messages sched) (initial t0) = (cs, x, sf)"
    by (cases "stream_loop cfg (run_call ul messages sched) (initial t0)") auto
  have i: "attempt_inv (initial t0) (producer_of (run_call ul messages sched))"
    using p f attempt_inv_initial by simp
  note t = loop_trace[OF i l, unfolded p puts_attempt]
  from t have xc: "x \<noteq> Cancelled" by blast
  have "\<exists>cs' sf'. stream_loop cfg (run_call ul messages sched @ polls) (initial t0) = (cs', Broke, sf')"
  proof (cases x)
    case Starved
    from t obtain gs where gs: "concat gs @ token_buffer sf @ queue sf
        = token_buffer (initial t0) @ queue (initial t0) @ toks @ puts fin" by blast
    have "length (puts fin) \<le> 1"
    proof (cases fin)
      case (InvokeRaised ex)
      then show ?thesis by (cases ex) simp_all
    qed simp_all
    moreover have "length (queue sf) \<le> length (toks @ puts fin)"
      using arg_cong[OF gs, of length] by (simp add: initial_def)
    ultimately have "length (queue sf) < length polls" using polls(2) by simp
    moreover have "done_event sf" using t attempt_marker(2)[OF f] by simp
    moreover have "\<not> call_cancelled sf" using t by blast
    ultimately obtain cs2 sf2 where "stream_loop cfg polls sf = (cs2, Broke, sf2)"
      using stream_loop_polls[OF polls(1)] by blast
    with stream_loop_append[OF l, of polls] Starved show ?thesis by simp
  next
    case Broke
    with stream_loop_append[OF l, of polls] show ?thesis by simp
  next
    case Cancelled
    with xc show ?thesis by simp
  qed
  then show ?thesis
    by (auto simp: stream_openai_def rc after_loop_def Let_def split: prod.splits option.splits)
qed

lemma concat_map_concat: "concat (map concat gs) = concat (concat gs)"
  by (induction gs) simp_all

lemma run_call_valid: "lc_messages ul messages = Inr lc \<Longrightarrow> run_call ul messages sched = sched"
  by (simp add: run_call_def)

lemma after_loop_end [simp]:
  "after_loop (run_call_event OnLlmEnd (initial t0)) sleeps = ([], Returned)"
  by (simp add: after_loop_def initial_def)

lemma after_loop_auth [simp]:
  "after_loop (run_call_event (InvokeRaised AuthenticationError) (initial t0)) sleeps
     = ([], Raised (PermissionError (str ''Invalid or missing OpenAI API key'')))"
  by (simp add: after_loop_def initial_def is_PermissionError_def)

lemma after_loop_fallback:
  "x \<noteq> AuthenticationError \<Longrightarrow> x \<noteq> CancelledError \<Longrightarrow> \<not> is_PermissionError x \<Longrightarrow>
   after_loop (run_call_event (InvokeRaised x) (initial t0)) sleeps = (stream_fallback sleeps, Returned)"
  by (cases x) (simp_all add: after_loop_def initial_def is_PermissionError_def)

text \<open>
  C1. For a valid message sequence and a provider attempt that emits the tokens \<open>toks\<close>
  and then completes normally, under every schedule: the generator never raises; the
  chunks yielded are the concatenations of consecutive runs of the tokens, in order, so the
  concatenation of the chunks is a prefix of the concatenation of the tokens while the loop
  is still polling and equals it once the generator has returned; and once the schedule
  holds enough further polls the generator has returned.
\<close>

theorem stream_openai_success_concat:
  assumes "lc_messages ul messages = Inr lc" and "producer_of sched = attempt toks OnLlmEnd"
  shows "(\<forall>chunks e. stream_openai ul cfg t0 messages sched sleeps = (chunks, e) \<longrightarrow>
            (e = Returned \<or> e = Pending)
          \<and> (\<exists>rest. concat chunks @ rest = concat toks \<and> (e = Returned \<longrightarrow> rest = []))
          \<and> (\<exists>gs rest. chunks = map concat gs \<and> concat gs @ rest = toks \<and> (e = Returned \<longrightarrow> rest = [])))
       \<and> (\<forall>polls. list_all is_Poll polls \<and> length toks + 2 \<le> length polls \<longrightarrow>
            snd (stream_openai ul cfg t0 messages (sched @ polls) sleeps) = Returned)"
proof (intro conjI allI impI)
  have p: "producer_of (run_call ul messages sched) = attempt toks OnLlmEnd"
    using assms by (simp add: run_call_valid)
  have f: "settles OnLlmEnd" by simp
  {
    fix chunks e
    assume r: "stream_openai ul cfg t0 messages sched sleeps = (chunks, e)"
    from stream_openai_trace[OF p f r, unfolded after_loop_end fst_conv snd_conv]
    have t: "(e = Pending \<and> (\<exists>gs rest. chunks = map concat gs \<and> concat gs @ rest = toks))
           \<or> (e = Returned \<and> (\<exists>gs. chunks = map concat gs \<and> concat gs = toks))"
      by auto
    then show "e = Returned \<or> e = Pending" by blast
    from t show g: "\<exists>gs rest. chunks = map concat gs \<and> concat gs @ rest = toks \<and> (e = Returned \<longrightarrow> rest = [])"
      by auto
    then obtain gs rest where g: "chunks = map concat gs" "concat gs @ rest = toks" "e = Returned \<longrightarrow> rest = []"
      by blast
    have "concat chunks @ concat rest = concat toks"
      using g(1) arg_cong[OF g(2), of concat] by (simp add: concat_map_concat)
    then show "\<exists>rest. concat chunks @ rest = concat toks \<and> (e = Returned \<longrightarrow> rest = [])"
      using g(3) by (intro exI[of _ "concat rest"]) auto
  }
  fix polls assume a: "list_all is_Poll polls \<and> length toks + 2 \<le> length polls"
  have p': "producer_of (run_call ul messages (sched @ polls)) = attempt toks OnLlmEnd"
    using assms a by (simp add: run_call_valid producer_of_append producer_of_polls)
  obtain chunks e where r: "stream_openai ul cfg t0 messages (sched @ polls) sleeps = (chunks, e)"
    by (cases "stream_openai ul cfg t0 messages (sched @ polls) sleeps") auto
  from stream_openai_progress[OF p f, where polls=polls and cfg=cfg and ?t0.0=t0 and sleeps=sleeps] a r have "e \<noteq> Pending" by simp
  with stream_openai_trace[OF p' f r, unfolded after_loop_end fst_conv snd_conv] r
  show "snd (stream_openai ul cfg t0 messages (sched @ polls) sleeps) = Returned" by auto
qed

lemma lc_messages_user:
  "lc_messages ul [user_message] = Inr [HumanMessage (str ''How do I raise tilapia?'')]"
  by (simp add: lc_messages_def user_message_def getitem_def lower_def is_ascii_def str_def)

theorem stream_openai_success_concat_witness:
  "lc_messages id [user_message] = Inr [HumanMessage (str ''How do I raise tilapia?'')]
   \<and> producer_of [Task (OnLlmNewToken (str ''Til'')), Poll (1/10) (1/10),
                   Task (OnLlmNewToken (str ''apia'')), Task OnLlmEnd]
       = attempt [str ''Til'', str ''apia''] OnLlmEnd
   \<and> stream_openai id default_config 0 [user_message]
        ([Task (OnLlmNewToken (str ''Til'')), Poll (1/10) (1/10),
          Task (OnLlmNewToken (str ''apia'')), Task OnLlmEnd]
         @ [Poll (2/10) (2/10), Poll (4/10) (4/10), Poll (6/10) (6/10), Poll (8/10) (8/10)]) []
       = ([str ''Tilapia''], Returned)
   \<and> snd (stream_openai id default_config 0 [user_message]
        ([Task (OnLlmNewToken (str ''Til'')), Poll (1/10) (1/10),
          Task (OnLlmNewToken (str ''apia'')), Task OnLlmEnd]
         @ [Poll (2/10) (2/10), Poll (4/10) (4/10), Poll (6/10) (6/10), Poll (8/10) (8/10)]) [])
       = Returned"
proof -
  have p: "producer_of [Task (OnLlmNewToken (str ''Til'')), Poll (1/10) (1/10),
                   Task (OnLlmNewToken (str ''apia'')), Task OnLlmEnd]
       = attempt [str ''Til'', str ''apia''] OnLlmEnd"
    by (simp add: attempt_def)
  have v: "stream_openai id default_config 0 [user_message]
        ([Task (OnLlmNewToken (str ''Til'')), Poll (1/10) (1/10),
          Task (OnLlmNewToken (str ''apia'')), Task OnLlmEnd]
         @ [Poll (2/10) (2/10), Poll (4/10) (4/10), Poll (6/10) (6/10), Poll (8/10) (8/10)]) []
       = ([str ''Tilapia''], Returned)"
    by (simp add: stream_openai_def run_call_def lc_messages_user initial_def loop_body_def Let_def
        buffered_def default_config_def after_loop_def str_def)
  have q: "list_all is_Poll [Poll (2/10) (2/10), Poll (4/10) (4/10), Poll (6/10) (6/10), Poll (8/10) (8/10)]
      \<and> length [str ''Til'', str ''apia''] + 2
          \<le> length [Poll (2/10) (2/10), Poll (4/10) (4/10), Poll (6/10) (6/10), Poll (8/10) (8/10)]"
    by (simp add: is_Poll_def)
  note th = stream_openai_success_concat[where ul=id and cfg=default_config and ?t0.0=0 and sleeps="[]",
      OF lc_messages_user p]
  from th[THEN conjunct2, rule_format, OF q]
  have w: "snd (stream_openai id default_config 0 [user_message]
        ([Task (OnLlmNewToken (str ''Til'')), Poll (1/10) (1/10),
          Task (OnLlmNewToken (str ''apia'')), Task OnLlmEnd]
         @ [Poll (2/10) (2/10), Poll (4/10) (4/10), Poll (6/10) (6/10), Poll (8/10) (8/10)]) [])
       = Returned" .
  show ?thesis by (intro conjI) (rule lc_messages_user p v w)+
qed

lemma concat_snoc_split:
  assumes "concat gs = xs @ [w]" "[] \<notin> set gs"
  shows "\<exists>gs' g. gs = gs' @ [g @ [w]] \<and> concat gs' @ g = xs"
proof (cases gs rule: rev_cases)
  case Nil
  with assms show ?thesis by simp
next
  case (snoc gs0 l)
  with assms(2) have "l \<noteq> []" by auto
  then obtain l0 y where l: "l = l0 @ [y]" by (cases l rule: rev_cases) auto
  with assms(1) snoc have "(concat gs0 @ l0) @ [y] = xs @ [w]" by simp
  then have "concat gs0 @ l0 = xs" "y = w" by (simp_all only: append1_eq_conv)
  with snoc l show ?thesis by blast
qed

lemma concat_Nil_groups: "concat gs = [] \<Longrightarrow> [] \<notin> set gs \<Longrightarrow> gs = []"
  by (cases gs) auto

lemma fallback_loop_uninterrupted:
  "True \<notin> set sleeps \<Longrightarrow> fallback_loop ws sleeps = fallback_loop ws []"
proof (induction ws arbitrary: sleeps)
  case Nil
  show ?case by simp
next
  case (Cons w ws)
  show ?case
  proof (cases sleeps)
    case Nil
    then show ?thesis by simp
  next
    case sl: (Cons c cs)
    with Cons.prems have c: "\<not> c" "True \<notin> set cs" by auto
    from Cons.IH[OF c(2)] c(1) sl show ?thesis by simp
  qed
qed

lemma stream_fallback_uninterrupted:
  "True \<notin> set sleeps \<Longrightarrow> stream_fallback sleeps = stream_fallback []"
  unfolding stream_fallback_def by (rule fallback_loop_uninterrupted)

lemma attempt_outcome:
  assumes p: "producer_of (run_call ul messages sched) = attempt toks fin" and f: "settles fin"
    and a: "after_loop (run_call_event fin (initial t0)) sleeps = (tail, fe)"
  shows "(\<forall>chunks e. stream_openai ul cfg t0 messages sched sleeps = (chunks, e) \<longrightarrow>
            (e = Pending \<and> (\<exists>gs rest. chunks = map concat gs \<and> [] \<notin> set gs
                                \<and> concat gs @ rest = toks @ puts fin))
          \<or> (e = fe \<and> (\<exists>gs. [] \<notin> set gs \<and> concat gs = toks @ puts fin
                                \<and> chunks = map concat gs @ tail)))
       \<and> (\<forall>polls. list_all is_Poll polls \<and> length toks + 2 \<le> length polls \<longrightarrow>
            (\<exists>gs. [] \<notin> set gs \<and> concat gs = toks @ puts fin
                \<and> stream_openai ul cfg t0 messages (sched @ polls) sleeps = (map concat gs @ tail, fe)))"
proof (intro conjI allI impI)
  fix chunks e
  assume r: "stream_openai ul cfg t0 messages sched sleeps = (chunks, e)"
  from stream_openai_trace[OF p f r, unfolded a fst_conv snd_conv]
  show "(e = Pending \<and> (\<exists>gs rest. chunks = map concat gs \<and> [] \<notin> set gs
                                \<and> concat gs @ rest = toks @ puts fin))
          \<or> (e = fe \<and> (\<exists>gs. [] \<notin> set gs \<and> concat gs = toks @ puts fin
                                \<and> chunks = map concat gs @ tail))"
    by blast
next
  fix polls assume q: "list_all is_Poll polls \<and> length toks + 2 \<le> length polls"
  have rc: "run_call ul messages (sched @ polls) = run_call ul messages sched @ polls"
    using q by (simp add: run_call_def filter_polls split: sum.splits)
  have p': "producer_of (run_call ul messages (sched @ polls)) = attempt toks fin"
    using p q by (simp add: rc producer_of_append producer_of_polls)
  obtain chunks e where r: "stream_openai ul cfg t0 messages (sched @ polls) sleeps = (chunks, e)"
    by (cases "stream_openai ul cfg t0 messages (sched @ polls) sleeps") auto
  from stream_openai_progress[OF p f, where polls=polls and cfg=cfg and ?t0.0=t0 and sleeps=sleeps] q r have "e \<noteq> Pending" by simp
  with stream_openai_trace[OF p' f r, unfolded a fst_conv snd_conv] r
  show "\<exists>gs. [] \<notin> set gs \<and> concat gs = toks @ puts fin
                \<and> stream_openai ul cfg t0 messages (sched @ polls) sleeps = (map concat gs @ tail, fe)"
    by auto
qed

text \<open>
  An attempt that emits the tokens \<open>toks\<close> and then raises an authentication error,
  with no error callback: the chunks are batches of the provider's tokens and nothing else,
  and the generator ends by raising \<open>PermissionError\<close>.
\<close>

lemma auth_error_plain:
  assumes "lc_messages ul messages = Inr lc"
    and "producer_of sched = attempt toks (InvokeRaised AuthenticationError)"
  shows "(\<forall>chunks e. stream_openai ul cfg t0 messages sched sleeps = (chunks, e) \<longrightarrow>
            (e = Raised (PermissionError (str ''Invalid or missing OpenAI API key'')) \<or> e = Pending)
          \<and> (\<exists>gs rest. chunks = map concat gs \<and> concat gs @ rest = toks
                \<and> (e \<noteq> Pending \<longrightarrow> rest = [] \<and> concat chunks = concat toks)))
       \<and> (\<forall>polls. list_all is_Poll polls \<and> length toks + 2 \<le> length polls \<longrightarrow>
            snd (stream_openai ul cfg t0 messages (sched @ polls) sleeps)
              = Raised (PermissionError (str ''Invalid or missing OpenAI API key'')))"
proof -
  let ?E = "Raised (PermissionError (str ''Invalid or missing OpenAI API key''))"
  have p: "producer_of (run_call ul messages sched) = attempt toks (InvokeRaised AuthenticationError)"
    using assms by (simp add: run_call_valid)
  have f: "settles (InvokeRaised AuthenticationError)" by simp
  have a: "after_loop (run_call_event (InvokeRaised AuthenticationError) (initial t0)) sleeps = ([], ?E)"
    by (rule after_loop_auth)
  note o = attempt_outcome[OF p f a, where cfg=cfg]
  show ?thesis
  proof (intro conjI allI impI)
    fix chunks e
    assume r: "stream_openai ul cfg t0 messages sched sleeps = (chunks, e)"
    from o[THEN conjunct1, rule_format, OF r]
    have t: "(e = Pending \<and> (\<exists>gs rest. chunks = map concat gs \<and> concat gs @ rest = toks))
       \<or> (e = ?E \<and> (\<exists>gs. concat gs = toks \<and> chunks = map concat gs))"
      by simp blast
    then show "e = ?E \<or> e = Pending"
      by blast
    from t show "\<exists>gs rest. chunks = map concat gs \<and> concat gs @ rest = toks
                \<and> (e \<noteq> Pending \<longrightarrow> rest = [] \<and> concat chunks = concat toks)"
    proof
      assume "e = Pending \<and> (\<exists>gs rest. chunks = map concat gs \<and> concat gs @ rest = toks)"
      then show ?thesis by blast
    next
      assume "e = ?E \<and> (\<exists>gs. concat gs = toks \<and> chunks = map concat gs)"
      then obtain gs where "concat gs = toks" "chunks = map concat gs" by blast
      then have "chunks = map concat gs \<and> concat gs @ [] = toks
          \<and> (e \<noteq> Pending \<longrightarrow> [] = ([]::pystr list) \<and> concat chunks = concat toks)"
        by (simp add: concat_map_concat)
      then show ?thesis by blast
    qed
  next
    fix polls assume q: "list_all is_Poll polls \<and> length toks + 2 \<le> length polls"
    from o[THEN conjunct2, rule_format, OF q]
    show "snd (stream_openai ul cfg t0 messages (sched @ polls) sleeps) = ?E"
      by auto
  qed
qed

lemma fallback_loop_space:
  "x \<in> set (fallback_loop ws sleeps) \<Longrightarrow> \<exists>w \<in> set ws. x = w @ str '' ''"
proof (induction ws arbitrary: sleeps)
  case Nil
  then show ?case by simp
next
  case (Cons w ws)
  show ?case
  proof (cases "x = w @ str '' ''")
    case True
    then show ?thesis by simp
  next
    case False
    with Cons.prems obtain sl where "x \<in> set (fallback_loop ws sl)"
      by (auto split: list.splits if_splits)
    from Cons.IH[OF this] show ?thesis by auto
  qed
qed

lemma stream_fallback_last: "x \<in> set (stream_fallback sleeps) \<Longrightarrow> last x = 32"
  using fallback_loop_space[of x "py_split FALLBACK_TEXT" sleeps]
  by (auto simp: stream_fallback_def str_def)

lemma marker_last: "last RATE_LIMIT_MARKER = 10" "last TIMEOUT_MARKER = 10" "last UNEXPECTED_MARKER = 10"
  by (simp_all add: RATE_LIMIT_MARKER_def TIMEOUT_MARKER_def UNEXPECTED_MARKER_def)

text \<open>
  The warning is queued like any token and coalesced with the text buffered before it.
  With the default settings, a provider that emits \<open>Hi\<close> and is then rate limited
  yields the chunk \<open>Hi\<close> followed by the warning, then the fallback words: no chunk
  of the stream is the warning itself, which is what C2 asks for.
\<close>

theorem stream_openai_warning_merged:
  "stream_openai id default_config 0 [user_message]
     [Task (OnLlmNewToken (str ''Hi'')), Task (InvokeRaised RateLimitError),
      Poll (1/10) (1/10), Poll (1/5) (1/5), Poll (2/5) (2/5)] []
     = ((str ''Hi'' @ RATE_LIMIT_MARKER) # stream_fallback [], Returned)
   \<and> RATE_LIMIT_MARKER \<notin> set ((str ''Hi'' @ RATE_LIMIT_MARKER) # stream_fallback [])"
proof
  have l: "length RATE_LIMIT_MARKER = 51" "length (str ''Hi'') = 2"
    by (simp_all add: RATE_LIMIT_MARKER_def str_def)
  show "stream_openai id default_config 0 [user_message]
     [Task (OnLlmNewToken (str ''Hi'')), Task (InvokeRaised RateLimitError),
      Poll (1/10) (1/10), Poll (1/5) (1/5), Poll (2/5) (2/5)] []
     = ((str ''Hi'' @ RATE_LIMIT_MARKER) # stream_fallback [], Returned)"
    using l
    by (simp add: stream_openai_def run_call_def lc_messages_user initial_def loop_body_def Let_def
        buffered_def default_config_def after_loop_def is_PermissionError_def)
  have "RATE_LIMIT_MARKER \<notin> set (stream_fallback [])"
    using stream_fallback_last[of RATE_LIMIT_MARKER "[]"] marker_last by auto
  then show "RATE_LIMIT_MARKER \<notin> set ((str ''Hi'' @ RATE_LIMIT_MARKER) # stream_fallback [])"
    by (simp add: str_def)
qed

text \<open>
  An attempt that emits the tokens \<open>toks\<close> and then raises a rate limit or a timeout,
  with no error callback.
\<close>

lemma transient_fallback_plain:
  assumes "lc_messages ul messages = Inr lc"
    and "producer_of sched = attempt toks (InvokeRaised x)"
    and "x = RateLimitError \<or> x = TimeoutError"
    and "True \<notin> set sleeps"
  shows "(\<forall>chunks e. stream_openai ul cfg t0 messages sched sleeps = (chunks, e) \<longrightarrow>
            (e = Returned \<or> e = Pending)
          \<and> (e = Returned \<longrightarrow>
               (\<exists>pre b. chunks = pre @ [b @ (if x = RateLimitError then RATE_LIMIT_MARKER else TIMEOUT_MARKER)]
                                  @ stream_fallback []
                        \<and> concat pre @ b = concat toks)
             \<and> (toks = [] \<longrightarrow>
                  chunks = (if x = RateLimitError then RATE_LIMIT_MARKER else TIMEOUT_MARKER)
                             # stream_fallback [])))
       \<and> (\<forall>polls. list_all is_Poll polls \<and> length toks + 2 \<le> length polls \<longrightarrow>
            snd (stream_openai ul cfg t0 messages (sched @ polls) sleeps) = Returned)"
proof -
  let ?W = "if x = RateLimitError then RATE_LIMIT_MARKER else TIMEOUT_MARKER"
  have p: "producer_of (run_call ul messages sched) = attempt toks (InvokeRaised x)"
    using assms by (simp add: run_call_valid)
  have f: "settles (InvokeRaised x)" using assms(3) by auto
  have a: "after_loop (run_call_event (InvokeRaised x) (initial t0)) sleeps = (stream_fallback [], Returned)"
    using after_loop_fallback[of x t0 sleeps] assms(3) stream_fallback_uninterrupted[OF assms(4)]
    by (auto simp: is_PermissionError_def)
  have pf: "puts (InvokeRaised x) = [?W]" using assms(3) by auto
  note o = attempt_outcome[OF p f a, where cfg=cfg, unfolded pf]
  show ?thesis
  proof (intro conjI allI impI)
    fix chunks e
    assume r: "stream_openai ul cfg t0 messages sched sleeps = (chunks, e)"
    note t = o[THEN conjunct1, rule_format, OF r]
    from t show "e = Returned \<or> e = Pending" by blast
    {
      assume "e = Returned"
      with t obtain gs where gs: "[] \<notin> set gs" "concat gs = toks @ [?W]"
        "chunks = map concat gs @ stream_fallback []" by blast
      from concat_snoc_split[OF gs(2) gs(1)] obtain gs' g where
        g: "gs = gs' @ [g @ [?W]]" "concat gs' @ g = toks" by blast
      have c: "chunks = map concat gs' @ [concat g @ ?W] @ stream_fallback []"
        using gs(3) g(1) by simp
      have "concat (map concat gs') @ concat g = concat toks"
        using arg_cong[OF g(2), of concat] by (simp add: concat_map_concat)
      with c show "\<exists>pre b. chunks = pre @ [b @ ?W] @ stream_fallback [] \<and> concat pre @ b = concat toks"
        by blast
      {
        assume "toks = []"
        with g(2) have "concat gs' = []" "g = []" by simp_all
        moreover have "[] \<notin> set gs'" using gs(1) g(1) by auto
        ultimately have "gs' = []" using concat_Nil_groups by blast
        with c \<open>g = []\<close> show "chunks = ?W # stream_fallback []" by simp
      }
    }
  next
    fix polls assume q: "list_all is_Poll polls \<and> length toks + 2 \<le> length polls"
    from o[THEN conjunct2, rule_format, OF q]
    show "snd (stream_openai ul cfg t0 messages (sched @ polls) sleeps) = Returned"
      by auto
  qed
qed

lemma stream_loop_without_callback:
  "handled_at_once es \<Longrightarrow>
   stream_loop cfg (es @ rest) s = stream_loop cfg (without_callback es @ rest) s"
proof (induction es arbitrary: s rule: length_induct)
  case (1 es)
  show ?case
  proof (cases es)
    case Nil
    then show ?thesis by simp
  next
    case (Cons ev es1)
    show ?thesis
    proof (cases ev)
      case (Poll now now')
      with Cons "1.prems" have h: "handled_at_once es1" by simp
      have "stream_loop cfg (es1 @ rest) s' = stream_loop cfg (without_callback es1 @ rest) s'" for s'
        using "1.IH" h Cons by simp
      then show ?thesis using Cons Poll by simp
    next
      case (Task p)
      show ?thesis
      proof (cases "is_error_callback p")
        case False
        with Cons Task "1.prems" have h: "handled_at_once es1" by simp
        have "stream_loop cfg (es1 @ rest) s' = stream_loop cfg (without_callback es1 @ rest) s'" for s'
          using "1.IH" h Cons by simp
        then show ?thesis using Cons Task False by simp
      next
        case True
        then obtain e where p: "p = OnLlmError e"
          by (cases p) (simp_all add: is_error_callback_def)
        from True Cons Task "1.prems" obtain x es2 where
          es1: "es1 = Task (InvokeRaised x) # es2" and x: "x \<noteq> CancelledError"
          and h: "handled_at_once es2"
          by (auto split: list.splits event.splits pevent.splits)
        have ih: "stream_loop cfg (es2 @ rest) s' = stream_loop cfg (without_callback es2 @ rest) s'" for s'
          using "1.IH" h Cons es1 by simp
        have "stream_loop cfg (es @ rest) s
            = stream_loop cfg (es2 @ rest) (run_call_event (InvokeRaised x) (run_call_event (OnLlmError e) s))"
          using Cons Task p es1 by simp
        also have "\<dots> = stream_loop cfg (es2 @ rest) (run_call_event (InvokeRaised x) s)"
          by (simp only: on_llm_error_overwritten[OF x])
        also have "\<dots> = stream_loop cfg (without_callback es2 @ rest) (run_call_event (InvokeRaised x) s)"
          by (rule ih)
        also have "\<dots> = stream_loop cfg (without_callback es @ rest) s"
          using Cons Task p es1 True by (simp add: is_error_callback_def)
        finally show ?thesis .
      qed
    qed
  qed
qed

lemma producer_of_without_callback:
  "producer_of (without_callback es) = filter (\<lambda>p. \<not> is_error_callback p) (producer_of es)"
  by (induction es rule: without_callback.induct) simp_all

lemma failing_attempt_filter:
  "filter (\<lambda>p. \<not> is_error_callback p) (failing_attempt toks callback x) = attempt toks (InvokeRaised x)"
  by (induction toks) (simp_all add: failing_attempt_def attempt_def is_error_callback_def split: option.splits)

lemma stream_openai_without_callback:
  assumes "lc_messages ul messages = Inr lc" "handled_at_once sched"
  shows "stream_openai ul cfg t0 messages (sched @ rest) sleeps
       = stream_openai ul cfg t0 messages (without_callback sched @ rest) sleeps"
  using assms stream_loop_without_callback[OF assms(2), of cfg rest "initial t0"]
  by (simp add: stream_openai_def run_call_valid)

text \<open>
  C2, amended. For a valid message sequence and a provider attempt that emits the tokens
  \<open>toks\<close> and then fails with a rate limit or a timeout, where no poll of the consumer
  completes between the client's error callback, if it makes one, and \<open>run_call\<close>
  handling the exception, and with the fallback replay not interrupted, under every such
  schedule: the generator never raises; when it has returned, the stream is the provider's
  tokens in batches, the last batch ending with the warning text, followed by every word of
  the fallback, one chunk each; when the provider emitted no token the warning is a chunk
  of its own, the first of the stream; and once the schedule holds enough further polls the
  generator has returned.
\<close>

theorem stream_openai_transient_fallback:
  assumes "lc_messages ul messages = Inr lc"
    and "producer_of sched = failing_attempt toks callback x"
    and "handled_at_once sched"
    and "x = RateLimitError \<or> x = TimeoutError"
    and "True \<notin> set sleeps"
  shows "(\<forall>chunks e. stream_openai ul cfg t0 messages sched sleeps = (chunks, e) \<longrightarrow>
            (e = Returned \<or> e = Pending)
          \<and> (e = Returned \<longrightarrow>
               (\<exists>pre b. chunks = pre @ [b @ (if x = RateLimitError then RATE_LIMIT_MARKER else TIMEOUT_MARKER)]
                                  @ stream_fallback []
                        \<and> concat pre @ b = concat toks)
             \<and> (toks = [] \<longrightarrow>
                  chunks = (if x = RateLimitError then RATE_LIMIT_MARKER else TIMEOUT_MARKER)
                             # stream_fallback [])))
       \<and> (\<forall>polls. list_all is_Poll polls \<and> length toks + 2 \<le> length polls \<longrightarrow>
            snd (stream_openai ul cfg t0 messages (sched @ polls) sleeps) = Returned)"
proof -
  have p: "producer_of (without_callback sched) = attempt toks (InvokeRaised x)"
    using assms(2) by (simp add: producer_of_without_callback failing_attempt_filter)
  have a: "stream_openai ul cfg t0 messages sched sleeps
         = stream_openai ul cfg t0 messages (without_callback sched) sleeps"
    using stream_openai_without_callback[OF assms(1,3), of cfg t0 "[]" sleeps] by simp
  have b: "stream_openai ul cfg t0 messages (sched @ polls) sleeps
         = stream_openai ul cfg t0 messages (without_callback sched @ polls) sleeps" for polls
    by (rule stream_openai_without_callback[OF assms(1,3)])
  from transient_fallback_plain[OF assms(1) p assms(4,5), of cfg t0]
  show ?thesis unfolding a b .
qed

theorem stream_openai_transient_fallback_witness:
  "lc_messages id [user_message] = Inr [HumanMessage (str ''How do I raise tilapia?'')]
   \<and> producer_of [Task (OnLlmError RateLimitError), Task (InvokeRaised RateLimitError)]
       = failing_attempt [] (Some RateLimitError) RateLimitError
   \<and> handled_at_once [Task (OnLlmError RateLimitError), Task (InvokeRaised RateLimitError)]
   \<and> (RateLimitError = RateLimitError \<or> RateLimitError = TimeoutError)
   \<and> True \<notin> set [False, False]
   \<and> stream_openai id default_config 0 [user_message]
        ([Task (OnLlmError RateLimitError), Task (InvokeRaised RateLimitError)]
         @ [Poll (1/10) (1/10), Poll (3/10) (3/10)]) [False, False]
       = (RATE_LIMIT_MARKER # stream_fallback [], Returned)"
proof -
  let ?sched = "[Task (OnLlmError RateLimitError), Task (InvokeRaised RateLimitError)]"
  let ?polls = "[Poll (1/10) (1/10), Poll (3/10) (3/10)]"
  have p: "producer_of ?sched = failing_attempt [] (Some RateLimitError) RateLimitError"
    by (simp add: failing_attempt_def)
  have p': "producer_of (?sched @ ?polls) = failing_attempt [] (Some RateLimitError) RateLimitError"
    by (simp add: failing_attempt_def)
  have h: "handled_at_once ?sched" by (simp add: is_error_callback_def)
  have h': "handled_at_once (?sched @ ?polls)" by (simp add: is_error_callback_def)
  have x: "RateLimitError = RateLimitError \<or> RateLimitError = TimeoutError" by simp
  have u: "True \<notin> set [False, False]" by simp
  have q: "list_all is_Poll ?polls \<and> length ([]::pystr list) + 2 \<le> length ?polls"
    by (simp add: is_Poll_def)
  obtain chunks e where r: "stream_openai id default_config 0 [user_message] (?sched @ ?polls) [False, False]
      = (chunks, e)"
    by (cases "stream_openai id default_config 0 [user_message] (?sched @ ?polls) [False, False]") auto
  note th = stream_openai_transient_fallback[where ul=id and cfg=default_config and ?t0.0=0,
      OF lc_messages_user p h x u]
  from th[THEN conjunct2, rule_format, OF q] r have e: "e = Returned" by simp
  note th' = stream_openai_transient_fallback[where ul=id and cfg=default_config and ?t0.0=0,
      OF lc_messages_user p' h' x u]
  from th'[THEN conjunct1, rule_format, OF r] e have "chunks = RATE_LIMIT_MARKER # stream_fallback []"
    by simp
  with r e have v: "stream_openai id default_config 0 [user_message] (?sched @ ?polls) [False, False]
       = (RATE_LIMIT_MARKER # stream_fallback [], Returned)" by simp
  show ?thesis by (intro conjI) (rule lc_messages_user p h x u v)+
qed

text \<open>
  The same for an authentication error: when no poll of the consumer completes between the
  error callback and \<open>run_call\<close> handling the exception, the generator yields the
  provider's tokens and raises \<open>PermissionError\<close>.
\<close>

lemma auth_error_handled_at_once:
  assumes "lc_messages ul messages = Inr lc"
    and "producer_of sched = failing_attempt toks callback AuthenticationError"
    and "handled_at_once sched"
  shows "(\<forall>chunks e. stream_openai ul cfg t0 messages sched sleeps = (chunks, e) \<longrightarrow>
            (e = Raised (PermissionError (str ''Invalid or missing OpenAI API key'')) \<or> e = Pending)
          \<and> (\<exists>gs rest. chunks = map concat gs \<and> concat gs @ rest = toks
                \<and> (e \<noteq> Pending \<longrightarrow> rest = [] \<and> concat chunks = concat toks)))
       \<and> (\<forall>polls. list_all is_Poll polls \<and> length toks + 2 \<le> length polls \<longrightarrow>
            snd (stream_openai ul cfg t0 messages (sched @ polls) sleeps)
              = Raised (PermissionError (str ''Invalid or missing OpenAI API key'')))"
proof -
  have p: "producer_of (without_callback sched) = attempt toks (InvokeRaised AuthenticationError)"
    using assms(2) by (simp add: producer_of_without_callback failing_attempt_filter)
  have a: "stream_openai ul cfg t0 messages sched sleeps
         = stream_openai ul cfg t0 messages (without_callback sched) sleeps"
    using stream_openai_without_callback[OF assms(1,3), of cfg t0 "[]" sleeps] by simp
  have b: "stream_openai ul cfg t0 messages (sched @ polls) sleeps
         = stream_openai ul cfg t0 messages (without_callback sched @ polls) sleeps" for polls
    by (rule stream_openai_without_callback[OF assms(1,3)])
  from auth_error_plain[OF assms(1) p, of cfg t0 sleeps]
  show ?thesis unfolding a b .
qed

text \<open>
  C3. The client reports the authentication failure to \<open>on_llm_error\<close>, which stores
  the error as it is and sets \<open>done\<close>, before \<open>run_call\<close> replaces it by the
  \<open>PermissionError\<close>. When the consumer's poll times out in between, the loop ends on
  the first marker, which is not a \<open>PermissionError\<close>: the generator replays the
  fallback and returns normally, with or without tokens before the failure. The
  authentication failure is then routed to the fallback, against C3.
\<close>

theorem auth_error_raced_to_fallback:
  "producer_of [Task (OnLlmError AuthenticationError), Poll (1/5) (1/5),
                Task (InvokeRaised AuthenticationError)]
     = failing_attempt [] (Some AuthenticationError) AuthenticationError
   \<and> stream_openai id default_config 0 [user_message]
        [Task (OnLlmError AuthenticationError), Poll (1/5) (1/5),
         Task (InvokeRaised AuthenticationError)] []
       = (stream_fallback [], Returned)
   \<and> stream_openai id default_config 0 [user_message]
        [Task (OnLlmNewToken (str ''Hi'')), Poll (1/10) (1/10),
         Task (OnLlmError AuthenticationError), Poll (3/10) (3/10),
         Task (InvokeRaised AuthenticationError)] []
       = (str ''Hi'' # stream_fallback [], Returned)"
  by (simp add: failing_attempt_def stream_openai_def run_call_def lc_messages_user initial_def
      loop_body_def Let_def buffered_def default_config_def after_loop_def is_PermissionError_def
      str_def)

lemma lc_loop_append:
  "lc_loop ul acc (pre @ rest) =
     (case lc_loop ul acc pre of Inl e \<Rightarrow> Inl e | Inr acc' \<Rightarrow> lc_loop ul acc' rest)"
  by (induction pre arbitrary: acc) (simp_all add: Let_def split: sum.splits)

lemma lc_loop_unsupported:
  assumes "m (str ''role'') = Some r"
    and "lower ul r \<notin> {str ''system'', str ''user'', str ''assistant''}"
  shows "lc_loop ul acc (m # post) = Inl (ValueError (str ''Unsupported role: '' @ lower ul r))"
  using assms by (simp add: getitem_def Let_def)

lemma producer_of_filter_polls: "producer_of (filter is_Poll sched) = []"
  by (induction sched rule: producer_of.induct) (simp_all add: is_Poll_def)

lemma adapter_failure_stream:
  assumes l: "lc_messages ul messages = Inl x"
    and x: "x \<noteq> AuthenticationError" "x \<noteq> RateLimitError" "x \<noteq> TimeoutError"
       "x \<noteq> CancelledError" "\<not> is_PermissionError x"
    and u: "True \<notin> set sleeps"
  shows "(\<forall>chunks e. stream_openai ul cfg t0 messages sched sleeps = (chunks, e) \<longrightarrow> e \<noteq> Pending \<longrightarrow>
            e = Returned \<and> chunks = UNEXPECTED_MARKER # stream_fallback [])
       \<and> (\<forall>polls. list_all is_Poll polls \<and> 2 \<le> length polls \<longrightarrow>
            stream_openai ul cfg t0 messages (sched @ polls) sleeps
              = (UNEXPECTED_MARKER # stream_fallback [], Returned))"
proof -
  have p: "producer_of (run_call ul messages sched) = attempt [] (InvokeRaised x)" for sched
    using l by (simp add: run_call_def producer_of_filter_polls attempt_def)
  have f: "settles (InvokeRaised x)" using x by simp
  have a: "after_loop (run_call_event (InvokeRaised x) (initial t0)) sleeps = (stream_fallback [], Returned)"
    using after_loop_fallback[of x t0 sleeps] x stream_fallback_uninterrupted[OF u] by simp
  have pf: "puts (InvokeRaised x) = [UNEXPECTED_MARKER]"
    using x by (cases x) (simp_all add: is_PermissionError_def)
  have g: "gs = [[UNEXPECTED_MARKER]]" if "[] \<notin> set gs" "concat gs = [] @ [UNEXPECTED_MARKER]" for gs
  proof -
    from concat_snoc_split[OF that(2) that(1)] obtain gs' g where
      g: "gs = gs' @ [g @ [UNEXPECTED_MARKER]]" "concat gs' @ g = []" by blast
    then have "concat gs' = []" "g = []" by simp_all
    moreover have "[] \<notin> set gs'" using that(1) g(1) by auto
    ultimately have "gs' = []" using concat_Nil_groups by blast
    with g \<open>g = []\<close> show ?thesis by simp
  qed
  show ?thesis
  proof (rule conjI; intro allI impI)
    fix chunks e
    assume r: "stream_openai ul cfg t0 messages sched sleeps = (chunks, e)" and n: "e \<noteq> Pending"
    note o = attempt_outcome[OF p f a, where cfg=cfg, unfolded pf]
    from o[THEN conjunct1, rule_format, OF r] n obtain gs where
      gs: "e = Returned" "[] \<notin> set gs" "concat gs = [] @ [UNEXPECTED_MARKER]"
        "chunks = map concat gs @ stream_fallback []" by blast
    from g[OF gs(2,3)] gs(4) have "chunks = UNEXPECTED_MARKER # stream_fallback []" by simp
    with gs(1) show "e = Returned \<and> chunks = UNEXPECTED_MARKER # stream_fallback []" by simp
  next
    fix polls assume q: "list_all is_Poll polls \<and> 2 \<le> length polls"
    then have q': "list_all is_Poll polls \<and> length ([]::pystr list) + 2 \<le> length polls" by simp
    note o = attempt_outcome[OF p f a, where cfg=cfg, unfolded pf]
    from o[THEN conjunct2, rule_format, OF q'] obtain gs where
      gs: "[] \<notin> set gs" "concat gs = [] @ [UNEXPECTED_MARKER]"
        "stream_openai ul cfg t0 messages (sched @ polls) sleeps = (map concat gs @ stream_fallback [], Returned)"
      by blast
    from g[OF gs(1,2)] gs(3)
    show "stream_openai ul cfg t0 messages (sched @ polls) sleeps
              = (UNEXPECTED_MARKER # stream_fallback [], Returned)" by simp
  qed
qed

text \<open>
  C4. \<open>_lc_messages\<close> rejects the role \<open>moderator\<close> with a \<open>ValueError\<close>, but
  it is called inside the \<open>try\<close> of \<open>run_call\<close>: the last \<open>except\<close> clause
  catches the error and reports it as a failure of the backend. \<open>stream_openai\<close> does
  not fail: it yields the warning and the fallback words and returns normally, where C4
  has it raise the error before any chunk.
\<close>

theorem unsupported_role_not_raised:
  "stream_openai id default_config 0 [moderator_message] [Poll (1/10) (1/10), Poll (3/10) (3/10)] []
     = (UNEXPECTED_MARKER # stream_fallback [], Returned)"
proof -
  have l: "lc_messages id [moderator_message] = Inl (ValueError (str ''Unsupported role: moderator''))"
    by (simp add: lc_messages_def moderator_message_def getitem_def lower_def is_ascii_def str_def)
  have m: "length UNEXPECTED_MARKER = 56"
    by (simp add: UNEXPECTED_MARKER_def str_def)
  show ?thesis
    using m
    by (simp add: stream_openai_def run_call_def l initial_def loop_body_def Let_def
        buffered_def default_config_def after_loop_def is_PermissionError_def is_Poll_def)
qed

text \<open>
  The same for every message list whose first message that cannot be adapted has a role
  outside \<open>system\<close>, \<open>user\<close>, \<open>assistant\<close> (compared in lower case): the
  adapter fails with the \<open>ValueError\<close> naming the role, the provider is not invoked,
  and under every schedule, with the fallback replay not interrupted, the generator yields
  the warning and the fallback and returns; two polls are enough for it to finish.
\<close>

lemma unsupported_role_falls_back:
  assumes "lc_messages ul pre = Inr lc"
    and "m (str ''role'') = Some r"
    and "lower ul r \<notin> {str ''system'', str ''user'', str ''assistant''}"
    and "True \<notin> set sleeps"
  shows "lc_messages ul (pre @ m # post) = Inl (ValueError (str ''Unsupported role: '' @ lower ul r))
       \<and> (\<forall>chunks e. stream_openai ul cfg t0 (pre @ m # post) sched sleeps = (chunks, e) \<longrightarrow> e \<noteq> Pending \<longrightarrow>
            e = Returned \<and> chunks = UNEXPECTED_MARKER # stream_fallback [])
       \<and> (\<forall>polls. list_all is_Poll polls \<and> 2 \<le> length polls \<longrightarrow>
            stream_openai ul cfg t0 (pre @ m # post) (sched @ polls) sleeps
              = (UNEXPECTED_MARKER # stream_fallback [], Returned))"
proof -
  have l: "lc_messages ul (pre @ m # post) = Inl (ValueError (str ''Unsupported role: '' @ lower ul r))"
    using assms(1) lc_loop_unsupported[where m=m and r=r, OF assms(2,3)]
    by (simp add: lc_messages_def lc_loop_append)
  from adapter_failure_stream[OF l _ _ _ _ _ assms(4), where cfg=cfg and ?t0.0=t0 and sched=sched] l
  show ?thesis by (simp add: is_PermissionError_def)
qed

text \<open>
  C5. A failure to establish the provider call is an exception raised inside \<open>run_call\<close>:
  it is caught there, and the one invocation of \<open>stream_openai\<close> ends normally with the
  warning and the fallback. Nothing is raised to the \<open>retry\<close> decorator and the provider
  is not called again.
\<close>

theorem establishment_failure_single_attempt:
  "stream_openai id default_config 0 [user_message]
     [Task (InvokeRaised (OtherException (str ''Connection error.''))),
      Poll (1/10) (1/10), Poll (3/10) (3/10)] []
     = (UNEXPECTED_MARKER # stream_fallback [], Returned)"
proof -
  have m: "length UNEXPECTED_MARKER = 56"
    by (simp add: UNEXPECTED_MARKER_def str_def)
  show ?thesis
    using m
    by (simp add: stream_openai_def run_call_def lc_messages_user initial_def loop_body_def Let_def
        buffered_def default_config_def after_loop_def is_PermissionError_def)
qed

section \<open>The fallback replay\<close>

lemma fallback_words:
  "py_split FALLBACK_TEXT =
     [str ''<!--FALLBACK-->'' @ [240, 376, 376],
      str ''Oops!'',
      str ''Just'',
      str ''a'',
      str ''heads-up:'',
      str ''**SORRY**'',
      str ''I'' @ [39] @ str ''m'',
      str ''trained'',
      str ''specifically'',
      str ''in'',
      str ''**aquaculture,'',
      str ''agriculture,'',
      str ''fish,'',
      str ''and'',
      str ''poultry**'',
      str ''topics.'',
      str ''I'',
      str ''was'',
      str ''developed'',
      str ''by'',
      str ''**Aquanex'',
      str ''Systems**,'',
      str ''so'',
      str ''that'' @ [39] @ str ''s'',
      str ''my'',
      str ''specialty!'',
      str ''Please'',
      str ''ask'',
      str ''me'',
      str ''something'',
      str ''in'',
      str ''those'',
      str ''areas'',
      [226, 8364, 8221],
      str ''I'' @ [39] @ str ''d'',
      str ''love'',
      str ''to'',
      str ''help!'',
      [240, 376, 8482]]"
  by (simp add: py_split_def FALLBACK_TEXT_def str_def isspace_def)

lemma fallback_loop_all: "fallback_loop ws [] = map (\<lambda>w. w @ str '' '') ws"
  by (induction ws) simp_all

lemma split_loop_words:
  assumes "x \<in> set (split_loop w cs)" "\<forall>c \<in> set w. \<not> isspace c"
  shows "x \<noteq> [] \<and> (\<forall>c \<in> set x. \<not> isspace c)"
  using assms
proof (induction cs arbitrary: w)
  case Nil
  then show ?case by (auto split: if_splits)
next
  case (Cons c cs)
  show ?case
  proof (cases "isspace c")
    case True
    with Cons.prems have "x = w \<and> w \<noteq> [] \<or> x \<in> set (split_loop [] cs)"
      by (auto split: if_splits)
    then show ?thesis
    proof
      assume "x = w \<and> w \<noteq> []"
      with Cons.prems(2) show ?thesis by simp
    next
      assume "x \<in> set (split_loop [] cs)"
      from Cons.IH[OF this] show ?thesis by simp
    qed
  next
    case False
    with Cons.prems have "x \<in> set (split_loop (w @ [c]) cs)" by simp
    moreover have "\<forall>d \<in> set (w @ [c]). \<not> isspace d" using False Cons.prems(2) by auto
    ultimately show ?thesis using Cons.IH by blast
  qed
qed

text \<open>
  The replay is one character longer than the fallback text: each of its three line
  feeds comes back as a space and a space follows the last word. So the concatenation of
  the words does not reconstruct the text exactly, as C7 has it.
\<close>

theorem fallback_not_exact:
  "concat (stream_fallback []) \<noteq> FALLBACK_TEXT"
proof -
  have "length (concat (stream_fallback [])) = 265"
    by (simp add: stream_fallback_def fallback_words fallback_loop_all str_def)
  moreover have "length FALLBACK_TEXT = 264"
    by (simp add: FALLBACK_TEXT_def str_def)
  ultimately show ?thesis by auto
qed

text \<open>
  C7, amended. The fallback source, run to completion without interruption, yields the same
  fixed sequence every time: the 39 words of the fallback text as \<open>split()\<close> cuts
  them, each non-empty, free of whitespace and followed by one space. Their concatenation
  is the fallback text with every line feed replaced by a space, and one more space at the
  end.
\<close>

theorem stream_fallback_words:
  assumes "True \<notin> set sleeps"
  shows "stream_fallback sleeps = map (\<lambda>w. w @ str '' '') (py_split FALLBACK_TEXT)
       \<and> length (stream_fallback sleeps) = 39
       \<and> (\<forall>t \<in> set (stream_fallback sleeps).
             \<exists>w. t = w @ str '' '' \<and> w \<noteq> [] \<and> (\<forall>c \<in> set w. \<not> isspace c))
       \<and> concat (stream_fallback sleeps)
           = map (\<lambda>c. if c = 10 then 32 else c) FALLBACK_TEXT @ str '' ''"
proof -
  have e: "stream_fallback sleeps = map (\<lambda>w. w @ str '' '') (py_split FALLBACK_TEXT)"
    using stream_fallback_uninterrupted[OF assms]
    by (simp add: stream_fallback_def fallback_loop_all)
  have l: "length (stream_fallback sleeps) = 39"
    unfolding e by (simp add: fallback_words)
  have w: "\<forall>t \<in> set (stream_fallback sleeps).
             \<exists>w. t = w @ str '' '' \<and> w \<noteq> [] \<and> (\<forall>c \<in> set w. \<not> isspace c)"
  proof
    fix t assume "t \<in> set (stream_fallback sleeps)"
    then obtain w where w: "w \<in> set (py_split FALLBACK_TEXT)" "t = w @ str '' ''"
      unfolding e by auto
    from split_loop_words[of w "[]" FALLBACK_TEXT] w(1)
    have "w \<noteq> [] \<and> (\<forall>c \<in> set w. \<not> isspace c)" by (simp add: py_split_def)
    with w(2) show "\<exists>w. t = w @ str '' '' \<and> w \<noteq> [] \<and> (\<forall>c \<in> set w. \<not> isspace c)" by blast
  qed
  have c: "concat (stream_fallback sleeps)
           = map (\<lambda>c. if c = 10 then 32 else c) FALLBACK_TEXT @ str '' ''"
    unfolding e fallback_words by (simp add: FALLBACK_TEXT_def str_def)
  from e l w c show ?thesis by blast
qed

theorem stream_fallback_words_witness:
  "True \<notin> set [False] \<and> length (stream_fallback [False]) = 39
   \<and> hd (stream_fallback [False]) = str ''<!--FALLBACK-->'' @ [240, 376, 376] @ str '' ''"
proof -
  have u: "True \<notin> set [False]" by simp
  note th = stream_fallback_words[OF u]
  have "hd (stream_fallback [False]) = str ''<!--FALLBACK-->'' @ [240, 376, 376] @ str '' ''"
    unfolding th[THEN conjunct1] by (simp add: fallback_words)
  with u th show ?thesis by blast
qed

section \<open>The flush policy\<close>













section \<open>Chunks are not empty\<close>

lemma marker_nonempty: "\<forall>t \<in> set (marker_for e). t \<noteq> []"
  by (cases e) (simp_all add: RATE_LIMIT_MARKER_def TIMEOUT_MARKER_def UNEXPECTED_MARKER_def)

lemma puts_nonempty:
  assumes "\<forall>t. p = OnLlmNewToken t \<longrightarrow> t \<noteq> []"
  shows "\<forall>t \<in> set (puts p). t \<noteq> []"
  using assms marker_nonempty by (cases p) auto

lemma stream_loop_nonempty:
  assumes "\<forall>t \<in> set (token_buffer s @ queue s). t \<noteq> []"
    and "nonempty_tokens (producer_of es)"
    and "stream_loop cfg es s = (cs, x, sf)"
  shows "(\<forall>c \<in> set cs. c \<noteq> []) \<and> (\<forall>t \<in> set (token_buffer sf). t \<noteq> [])"
  using assms
proof (induction cfg es s arbitrary: cs x sf rule: stream_loop.induct)
  case (1 cfg s)
  then show ?case by auto
next
  case (2 cfg p es s)
  from "2.prems"(2) have n: "nonempty_tokens (producer_of es)"
    and pp: "\<forall>t. p = OnLlmNewToken t \<longrightarrow> t \<noteq> []"
    by (simp_all add: nonempty_tokens_def)
  have "\<forall>t \<in> set (token_buffer (run_call_event p s) @ queue (run_call_event p s)). t \<noteq> []"
    using "2.prems"(1) puts_nonempty[OF pp] by (auto simp: run_call_event_fields)
  moreover from "2.prems"(3) have "stream_loop cfg es (run_call_event p s) = (cs, x, sf)" by simp
  ultimately show ?case using "2.IH" n by blast
next
  case (3 cfg now now' es s)
  obtain out s' c where b: "loop_body cfg now now' s = (out, s', c)"
    by (cases "loop_body cfg now now' s") auto
  from loop_body_cases[OF b]
  have g: "out = [] \<and> token_buffer s' @ queue s' = token_buffer s @ queue s
          \<or> (\<exists>g. g \<noteq> [] \<and> out = [concat g] \<and> token_buffer s' = []
                 \<and> g @ queue s' = token_buffer s @ queue s)" by blast
  have o: "\<forall>c \<in> set out. c \<noteq> []"
  proof -
    from g show ?thesis
    proof
      assume "out = [] \<and> token_buffer s' @ queue s' = token_buffer s @ queue s"
      then show ?thesis by simp
    next
      assume "\<exists>g. g \<noteq> [] \<and> out = [concat g] \<and> token_buffer s' = []
                 \<and> g @ queue s' = token_buffer s @ queue s"
      then obtain g where g: "g \<noteq> []" "out = [concat g]" "g @ queue s' = token_buffer s @ queue s"
        by blast
      from g(3) have "set g \<subseteq> set (token_buffer s @ queue s)"
        by (metis set_append Un_upper1)
      with "3.prems"(1) have "\<forall>t \<in> set g. t \<noteq> []" by blast
      with g(1) have "concat g \<noteq> []" by (cases g) auto
      with g(2) show ?thesis by simp
    qed
  qed
  have q: "\<forall>t \<in> set (token_buffer s' @ queue s'). t \<noteq> []"
  proof -
    from g have "set (token_buffer s' @ queue s') \<subseteq> set (token_buffer s @ queue s)"
    proof
      assume "out = [] \<and> token_buffer s' @ queue s' = token_buffer s @ queue s"
      then show ?thesis by simp
    next
      assume "\<exists>g. g \<noteq> [] \<and> out = [concat g] \<and> token_buffer s' = []
                 \<and> g @ queue s' = token_buffer s @ queue s"
      then obtain g where g: "token_buffer s' = []" "g @ queue s' = token_buffer s @ queue s"
        by blast
      from g(2) have "set (queue s') \<subseteq> set (token_buffer s @ queue s)"
        by (metis set_append Un_upper2)
      with g(1) show ?thesis by simp
    qed
    with "3.prems"(1) show ?thesis by blast
  qed
  from "3.prems"(2) have n: "nonempty_tokens (producer_of es)" by simp
  show ?case
  proof (cases c)
    case Continue
    obtain cs' where r: "stream_loop cfg es s' = (cs', x, sf)" and cs: "cs = out @ cs'"
      using "3.prems"(3) b Continue by (auto split: prod.splits)
    from "3.IH"[OF b[symmetric] refl Continue q n r] o cs show ?thesis by auto
  next
    case Break
    with "3.prems"(3) b have "cs = out" "sf = s'" by simp_all
    with o q show ?thesis by auto
  next
    case RaiseCancelled
    with "3.prems"(3) b have "cs = out" "sf = s'" by simp_all
    with o q show ?thesis by auto
  qed
qed

lemma stream_fallback_nonempty: "\<forall>c \<in> set (stream_fallback sleeps). c \<noteq> []"
proof
  fix c assume "c \<in> set (stream_fallback sleeps)"
  then obtain w where "c = w @ str '' ''"
    using fallback_loop_space[of c "py_split FALLBACK_TEXT" sleeps]
    by (auto simp: stream_fallback_def)
  then show "c \<noteq> []" by (simp add: str_def)
qed

text \<open>
  C9. The flushes are guarded by \<open>if token_buffer\<close>, which tests the list of tokens
  and not the text: an empty token makes the buffer a non-empty list of empty strings, and
  the periodic flush (or the leftover flush) yields the empty string as a chunk.
\<close>

theorem empty_token_empty_chunk:
  "stream_openai id default_config 0 [user_message]
     [Task (OnLlmNewToken []), Poll (1/10) (1/10), Task OnLlmEnd, Poll (3/10) (3/10)] []
     = ([[]], Returned)"
  by (simp add: stream_openai_def run_call_def lc_messages_user initial_def loop_body_def Let_def
      buffered_def default_config_def after_loop_def)

text \<open>
  Empty tokens are the only source of empty chunks: if every token the provider emits is
  non-empty, every chunk is non-empty, for every message list, schedule and ending.
\<close>

lemma chunks_nonempty:
  assumes "\<forall>p \<in> set (producer_of sched). \<forall>t. p = OnLlmNewToken t \<longrightarrow> t \<noteq> []"
  shows "\<forall>c \<in> set (fst (stream_openai ul cfg t0 messages sched sleeps)). c \<noteq> []"
proof -
  obtain cs x sf where l: "stream_loop cfg (run_call ul messages sched) (initial t0) = (cs, x, sf)"
    by (cases "stream_loop cfg (run_call ul messages sched) (initial t0)") auto
  have n: "nonempty_tokens (producer_of (run_call ul messages sched))"
    using assms
    by (auto simp: run_call_def nonempty_tokens_def producer_of_filter_polls split: sum.splits)
  have i: "\<forall>t \<in> set (token_buffer (initial t0) @ queue (initial t0)). t \<noteq> []"
    by (simp add: initial_def)
  from stream_loop_nonempty[OF i n l]
  have c: "\<forall>c \<in> set cs. c \<noteq> []" and t: "\<forall>t \<in> set (token_buffer sf). t \<noteq> []" by blast+
  have a: "\<forall>c \<in> set (fst (after_loop sf sleeps)). c \<noteq> []"
  proof -
    have "token_buffer sf \<noteq> [] \<Longrightarrow> concat (token_buffer sf) \<noteq> []"
      using t by (cases "token_buffer sf") auto
    then show ?thesis using stream_fallback_nonempty[of sleeps]
      by (auto simp: after_loop_def Let_def split: option.splits if_splits)
  qed
  show ?thesis
    using l c a by (cases x) (auto simp: stream_openai_def split: prod.splits)
qed

end
